theory Spec2Isabelle
  imports Main "HOL-Library.Word" "HOL-Library.Tree"
begin

section \<open>Errors\<close>

text \<open>
  Every way the C++ code can leave its defined behaviour is a value:
  a read or a store outside the character array, a failed \<^verbatim>\<open>assert\<close> or
  \<^verbatim>\<open>debug_assert\<close>, and an integer division by zero.
\<close>

datatype error = ReadOutOfBounds | WriteOutOfBounds | AssertFailed | DivByZero

section \<open>The name simplifier (\<^verbatim>\<open>stl_simplify_name\<close>)\<close>

text \<open>
  The function rewrites a character array in place. The array is a \<open>char list\<close>; the
  two pointers are indices into it. \<open>src\<close> is the index the current iteration reads,
  that is the C pointer after its pre-increment (the C pointer starts at \<^verbatim>\<open>name-1\<close>, the
  index at 0). \<open>dst\<close> is an \<open>int\<close>, because \<^verbatim>\<open>dst--\<close> can move it in front of the
  array. \<open>nesting\<close> is the C \<^verbatim>\<open>int\<close>; it changes by one per character read, so it
  cannot overflow on an array that fits in memory.
\<close>

definition NUL :: char where
  "NUL = CHR 0x00"

record sstate =
  buf :: "char list"
  src :: nat
  dst :: int
  nesting :: int

datatype flow = Continue sstate | Break "char list"

text \<open>\<^verbatim>\<open>*dst = c\<close>: a store outside the array is an error.\<close>

definition poke :: "char list \<Rightarrow> int \<Rightarrow> char \<Rightarrow> error + char list" where
  "poke b d c = (if 0 \<le> d \<and> nat d < length b then Inr (b[nat d := c]) else Inl WriteOutOfBounds)"

text \<open>\<^verbatim>\<open>strcpy(dst, with)\<close>: the characters of \<open>with\<close>, then the terminator.\<close>

fun strcpy :: "char list \<Rightarrow> int \<Rightarrow> char list \<Rightarrow> error + char list" where
  "strcpy b d [] = poke b d NUL"
| "strcpy b d (c # cs) = (case poke b d c of Inl e \<Rightarrow> Inl e | Inr b' \<Rightarrow> strcpy b' (d + 1) cs)"

text \<open>
  \<^verbatim>\<open>!strncmp(src, what, sizeof(what)-1)\<close>. No pattern contains the terminator, and the
  array ends with one in every iteration (\<open>body_terminated\<close> below), so the comparison
  stops inside the array and succeeds exactly when the next \<open>length what\<close> characters
  are \<open>what\<close>.
\<close>

definition strncmp0 :: "sstate \<Rightarrow> char list \<Rightarrow> bool" where
  "strncmp0 st what = (take (length what) (drop (src st) (buf st)) = what)"

text \<open>
  The macros. \<^verbatim>\<open>src += sizeof(what)-1-1\<close> followed by the pre-increment of the next
  iteration moves the read index by \<open>length what\<close>.
\<close>

definition REPLACE :: "sstate \<Rightarrow> char list \<Rightarrow> char list \<Rightarrow> error + flow" where
  "REPLACE st what with =
     (case strcpy (buf st) (dst st) with of
        Inl e \<Rightarrow> Inl e
      | Inr b \<Rightarrow> Inr (Continue (st\<lparr>buf := b, src := src st + length what,
                                    dst := dst st + int (length with)\<rparr>)))"

definition STRIP :: "sstate \<Rightarrow> char list \<Rightarrow> error + flow" where
  "STRIP st what = Inr (Continue (st\<lparr>src := src st + length what\<rparr>))"

text \<open>\<^verbatim>\<open>*dst++ = c; continue\<close>.\<close>

definition emit :: "sstate \<Rightarrow> char \<Rightarrow> error + flow" where
  "emit st c =
     (case poke (buf st) (dst st) c of
        Inl e \<Rightarrow> Inl e
      | Inr b \<Rightarrow> Inr (Continue (st\<lparr>buf := b, src := src st + 1, dst := dst st + 1\<rparr>)))"

text \<open>
  The branch for \<^verbatim>\<open>"::_Node"\<close>. The source writes \<^verbatim>\<open>src += 7\<close>, without the
  \<open>-1\<close> of the macros, so with the pre-increment the read index moves by 8.
\<close>

definition strip_Node :: "sstate \<Rightarrow> error + flow" where
  "strip_Node st =
     (if src st \<noteq> 0 \<and> buf st ! (src st - 1) \<noteq> CHR '' '' then
        (case poke (buf st) (dst st) (CHR '' '') of
           Inl e \<Rightarrow> Inl e
         | Inr b \<Rightarrow> Inr (Continue (st\<lparr>buf := b, src := src st + 8, dst := dst st + 1\<rparr>)))
      else Inr (Continue (st\<lparr>src := src st + 8\<rparr>)))"

text \<open>
  The branches for \<^verbatim>\<open>"std::allocator<"\<close> (\<^verbatim>\<open>src += 15\<close>) and \<^verbatim>\<open>"std::less<"\<close>
  (\<^verbatim>\<open>src += 10\<close>): \<open>n\<close> is that constant, and the read index moves by \<open>n + 1\<close>.
  \<^verbatim>\<open>debug_assert(nesting == 0)\<close> is reached only where \<open>nesting\<close> is 0.
\<close>

definition strip_template_arg :: "sstate \<Rightarrow> nat \<Rightarrow> error + flow" where
  "strip_template_arg st n =
     (let d = (if src st \<noteq> 0 \<and> buf st ! (src st - 1) = CHR '','' then dst st - 1 else dst st)
      in if nesting st = 0
         then Inr (Continue (st\<lparr>src := src st + n + 1, dst := d, nesting := 1\<rparr>))
         else Inl AssertFailed)"

text \<open>The part of the loop body under \<^verbatim>\<open>if(nesting)\<close>.\<close>

definition discard :: "sstate \<Rightarrow> char \<Rightarrow> error + flow" where
  "discard st c =
     (if c = CHR ''<'' then Inr (Continue (st\<lparr>src := src st + 1, nesting := nesting st + 1\<rparr>))
      else if c = CHR ''>'' then
        (if nesting st - 1 \<ge> 0
         then Inr (Continue (st\<lparr>src := src st + 1, nesting := nesting st - 1\<rparr>))
         else Inl AssertFailed)
      else Inr (Continue (st\<lparr>src := src st + 1\<rparr>)))"

text \<open>The \<^verbatim>\<open>else if\<close> chain, in the order of the source.\<close>

definition rules :: "sstate \<Rightarrow> char \<Rightarrow> error + flow" where
  "rules st c =
     (if strncmp0 st ''::_Node'' then strip_Node st
      else if strncmp0 st ''unsigned short'' then REPLACE st ''unsigned short'' ''u16''
      else if strncmp0 st ''unsigned int'' then REPLACE st ''unsigned int'' ''uint''
      else if strncmp0 st ''unsigned __int64'' then REPLACE st ''unsigned __int64'' ''u64''
      else if strncmp0 st '',0> '' then STRIP st '',0> ''
      else if c \<noteq> CHR ''s'' then emit st c
      else if strncmp0 st ''std::_List_nod'' then REPLACE st ''std::_List_nod'' ''list''
      else if strncmp0 st ''std::_Tree_nod'' then REPLACE st ''std::_Tree_nod'' ''map''
      else if strncmp0 st ''std::basic_string<char,''
        then REPLACE st ''std::basic_string<char,'' ''string<''
      else if strncmp0 st ''std::basic_string<unsigned short,''
        then REPLACE st ''std::basic_string<unsigned short,'' ''wstring<''
      else if strncmp0 st ''std::char_traits<char>,'' then STRIP st ''std::char_traits<char>,''
      else if strncmp0 st ''std::char_traits<unsigned short>,''
        then STRIP st ''std::char_traits<unsigned short>,''
      else if strncmp0 st ''std::_Tmap_traits'' then STRIP st ''std::_Tmap_traits''
      else if strncmp0 st ''std::_Tset_traits'' then STRIP st ''std::_Tset_traits''
      else if strncmp0 st ''std::allocator<'' then strip_template_arg st 15
      else if strncmp0 st ''std::less<'' then strip_template_arg st 10
      else if strncmp0 st ''std::'' then STRIP st ''std::''
      else emit st c)"

text \<open>One iteration of \<^verbatim>\<open>for(;;)\<close>, for a read index inside the array.\<close>

definition body :: "sstate \<Rightarrow> error + flow" where
  "body st =
     (let c = buf st ! src st in
      if c = NUL then
        (case poke (buf st) (dst st) NUL of Inl e \<Rightarrow> Inl e | Inr b \<Rightarrow> Inr (Break b))
      else if nesting st \<noteq> 0 then discard st c
      else rules st c)"

lemma poke_length: "poke b d c = Inr b' \<Longrightarrow> length b' = length b"
  by (auto simp: poke_def split: if_splits)

lemma strcpy_length: "strcpy b d w = Inr b' \<Longrightarrow> length b' = length b"
  by (induction w arbitrary: b d) (auto split: sum.splits dest: poke_length)

lemma REPLACE_progress:
  "REPLACE st what w = Inr (Continue st') \<Longrightarrow> what \<noteq> [] \<Longrightarrow>
   length (buf st') = length (buf st) \<and> src st < src st'"
  by (auto simp: REPLACE_def split: sum.splits dest: strcpy_length)

lemma rules_progress:
  "rules st c = Inr (Continue st') \<Longrightarrow> length (buf st') = length (buf st) \<and> src st < src st'"
  unfolding rules_def
  by (auto simp: STRIP_def emit_def strip_Node_def strip_template_arg_def discard_def Let_def
      split: if_splits sum.splits dest: poke_length REPLACE_progress)

lemma body_progress:
  "body st = Inr (Continue st') \<Longrightarrow> length (buf st') = length (buf st) \<and> src st < src st'"
  unfolding body_def Let_def
  by (auto simp: discard_def split: if_splits sum.splits dest: rules_progress)

text \<open>
  The loop. A read index outside the array is an access outside it. Each iteration
  moves the read index forward, so the loop ends.
\<close>

function loop :: "sstate \<Rightarrow> error + char list" where
  "loop st =
     (if length (buf st) \<le> src st then Inl ReadOutOfBounds
      else (case body st of
              Inl e \<Rightarrow> Inl e
            | Inr (Break b) \<Rightarrow> Inr b
            | Inr (Continue st') \<Rightarrow> loop st'))"
  by pat_completeness auto
termination
proof (relation "measure (\<lambda>st. length (buf st) - src st)")
  show "wf (measure (\<lambda>st. length (buf st) - src st))" by simp
next
  fix st :: sstate and x2 st'
  assume "\<not> length (buf st) \<le> src st" "body st = Inr x2" "x2 = Continue st'"
  then show "(st', st) \<in> measure (\<lambda>st. length (buf st) - src st)"
    using body_progress [of st st'] by auto
qed

declare loop.simps [simp del]

text \<open>
  \<open>stl_simplify_name mem\<close>: the array that \<^verbatim>\<open>name\<close> points to holds the characters
  \<open>mem\<close> and a final terminator. The C string in it is read by \<open>c_str\<close>. The result is
  the array after the call.
\<close>

definition c_str :: "char list \<Rightarrow> char list" where
  "c_str b = takeWhile (\<lambda>c. c \<noteq> NUL) b"

definition stl_simplify_name :: "char list \<Rightarrow> error + char list" where
  "stl_simplify_name mem = loop \<lparr>buf = mem @ [NUL], src = 0, dst = 0, nesting = 0\<rparr>"

text \<open>What a caller reads from the array after the call.\<close>

definition simplified :: "char list \<Rightarrow> error + char list" where
  "simplified s = (case stl_simplify_name s of Inl e \<Rightarrow> Inl e | Inr b \<Rightarrow> Inr (c_str b))"

section \<open>Container inspection\<close>

text \<open>
  \<^verbatim>\<open>size_t\<close> values and addresses are words of one width \<open>'a\<close>, which the source
  does not fix. The declarations of \<^verbatim>\<open>debug_stl.h\<close> and \<^verbatim>\<open>lib.h\<close> and the
  preprocessor symbols are not part of the file; they are the fields of \<open>env\<close>.
\<close>

datatype adapter =
  Any_deque | Any_list | Any_map | Any_multimap | Any_set | Any_multiset | Any_vector
| Any_basic_string | Any_queue | Any_stack
| Any_hash_map | Any_hash_multimap | Any_hash_set | Any_hash_multiset | Any_slist

text \<open>The standard class at the root of each adapter's inheritance chain.\<close>

datatype std_class =
  std_deque | std_list | std_map | std_set | std_vector | std_string
| STL_HASH_MAP | STL_HASH_SET | STL_SLIST

fun base :: "adapter \<Rightarrow> std_class" where
  "base Any_deque = std_deque"
| "base Any_list = std_list"
| "base Any_map = std_map"
| "base Any_multimap = std_map"
| "base Any_set = std_set"
| "base Any_multiset = std_set"
| "base Any_vector = std_vector"
| "base Any_basic_string = std_string"
| "base Any_queue = std_deque"
| "base Any_stack = std_deque"
| "base Any_hash_map = STL_HASH_MAP"
| "base Any_hash_multimap = STL_HASH_MAP"
| "base Any_hash_set = STL_HASH_SET"
| "base Any_hash_multiset = STL_HASH_SET"
| "base Any_slist = STL_SLIST"

text \<open>
  The bytes of an iterator object (what \<^verbatim>\<open>it_mem\<close> holds), by the members the
  code reads: \<^verbatim>\<open>_Myptr\<close> of a vector iterator and \<^verbatim>\<open>_Ptr\<close> of a tree iterator in
  \<open>it_Ptr\<close>, \<^verbatim>\<open>_Mycont\<close> and \<^verbatim>\<open>_Myoff\<close> of a deque iterator.
\<close>

record (overloaded) 'a cursor =
  it_Ptr :: "'a word"
  it_Mycont :: "'a word"
  it_Myoff :: "'a word"

text \<open>
  What the members of a standard container report when the blob is read as that
  container of \<^verbatim>\<open>int\<close>. The standard headers are not part of the source, so each
  value the code asks for is a field. A class without a member never reads its field.
\<close>

record (overloaded) 'a container =
  c_size :: "'a word"
  c_capacity :: "'a word"
  c_front :: "'a word"
  c_back :: "'a word"
  c_begin :: "'a cursor"
  c_begin_elem :: "'a word"
  c_c_str :: "'a word"
  c_Myoff :: "'a word"
  c_Mysize :: "'a word"
  c_Mapsize :: "'a word"
  c_Myres :: "'a word"

text \<open>
  The blob \<^verbatim>\<open>p\<close>: untyped memory, which the cast \<^verbatim>\<open>(Any_##name*)p\<close> reads through
  the layout of the adapter's standard base class.
\<close>

type_synonym 'a blob = "std_class \<Rightarrow> 'a container"

datatype iterator_fn =
  stl_iterator_primary adapter
| stl_iterator_Any_vector
| stl_iterator_Any_deque
| stl_iterator_Any_map

record (overloaded) ('a, 'w) env =
  MSC_VER_ge_1400 :: bool
  STL_DINKUMWARE :: bool
  HAVE_STL_HASH :: bool
  HAVE_STL_SLIST :: bool
  STL_HASH_MAP_str :: string
  STL_HASH_MULTIMAP_str :: string
  STL_HASH_SET_str :: string
  STL_HASH_MULTISET_str :: string
  STL_SLIST_str :: string
  STL_CNT_UNKNOWN :: int
  STL_CNT_INVALID :: int
  DEBUG_STL_MAX_ITERATOR_SIZE :: nat
  sizeof_T :: "adapter \<Rightarrow> 'a word"
  sizeof_iterator :: "adapter \<Rightarrow> nat"
  match_wildcard :: "string \<Rightarrow> string \<Rightarrow> bool"
  debug_is_bogus_pointer :: "'a word \<Rightarrow> bool"
  snprintf_ws :: "'w list \<Rightarrow> string"

subsection \<open>\<^verbatim>\<open>container_valid\<close>\<close>

text \<open>
  The comparison with the constant is the comparison of the two numbers:
  \<^verbatim>\<open>0x1000000\<close> is \<open>2 ^ 24\<close>.
\<close>

definition container_valid :: "('a::len, 'w) env \<Rightarrow> 'a word \<Rightarrow> 'a word \<Rightarrow> bool" where
  "container_valid env front el_count =
     (if unat el_count > 0x1000000 then False
      else if debug_is_bogus_pointer env front then False
      else True)"

subsection \<open>The adapters\<close>

text \<open>\<^verbatim>\<open>MAX(16 / el_size, 1)\<close>; dividing by an element size of 0 is an error.\<close>

definition el_per_bucket :: "'a::len word \<Rightarrow> error + 'a word" where
  "el_per_bucket el_size = (if el_size = 0 then Inl DivByZero else Inr (max (16 div el_size) 1))"

definition Any_deque_el_count :: "'a::len container \<Rightarrow> 'a word \<Rightarrow> error + 'a word" where
  "Any_deque_el_count c el_size = Inr (c_size c)"

definition Any_deque_valid ::
  "('a::len, 'w) env \<Rightarrow> 'a container \<Rightarrow> 'a word \<Rightarrow> error + bool" where
  "Any_deque_valid env c el_size =
     (case Any_deque_el_count c el_size of
        Inl e \<Rightarrow> Inl e
      | Inr el_count0 \<Rightarrow>
          if el_count0 \<noteq> 0 \<and> \<not> container_valid env (c_front c) el_count0 then Inr False
          else if STL_DINKUMWARE env then
            (case el_per_bucket el_size of
               Inl e \<Rightarrow> Inl e
             | Inr epb \<Rightarrow>
                 if c_Myoff c \<ge> epb then Inr False
                 else if c_Mysize c > c_Mapsize c * epb then Inr False
                 else Inr True)
          else Inr True)"

definition Any_list_el_count :: "'a::len container \<Rightarrow> 'a word \<Rightarrow> error + 'a word" where
  "Any_list_el_count c el_size = Inr (c_size c)"

definition Any_list_valid ::
  "('a::len, 'w) env \<Rightarrow> 'a container \<Rightarrow> 'a word \<Rightarrow> error + bool" where
  "Any_list_valid env c el_size =
     (case Any_list_el_count c el_size of
        Inl e \<Rightarrow> Inl e
      | Inr n \<Rightarrow> if \<not> container_valid env (c_front c) n then Inr False else Inr True)"

definition Any_map_el_count :: "'a::len container \<Rightarrow> 'a word \<Rightarrow> error + 'a word" where
  "Any_map_el_count c el_size = Inr (c_size c)"

definition Any_map_valid ::
  "('a::len, 'w) env \<Rightarrow> 'a container \<Rightarrow> 'a word \<Rightarrow> error + bool" where
  "Any_map_valid env c el_size =
     (case Any_map_el_count c el_size of
        Inl e \<Rightarrow> Inl e
      | Inr n \<Rightarrow> if \<not> container_valid env (c_begin_elem c) n then Inr False else Inr True)"

definition Any_set_el_count :: "'a::len container \<Rightarrow> 'a word \<Rightarrow> error + 'a word" where
  "Any_set_el_count c el_size = Inr (c_size c)"

definition Any_set_valid ::
  "('a::len, 'w) env \<Rightarrow> 'a container \<Rightarrow> 'a word \<Rightarrow> error + bool" where
  "Any_set_valid env c el_size =
     (case Any_set_el_count c el_size of
        Inl e \<Rightarrow> Inl e
      | Inr n \<Rightarrow> if \<not> container_valid env (c_begin_elem c) n then Inr False else Inr True)"

text \<open>\<^verbatim>\<open>size() * 4 / el_size\<close>, in \<^verbatim>\<open>size_t\<close> arithmetic.\<close>

definition Any_vector_el_count :: "'a::len container \<Rightarrow> 'a word \<Rightarrow> error + 'a word" where
  "Any_vector_el_count c el_size =
     (if el_size = 0 then Inl DivByZero else Inr (c_size c * 4 div el_size))"

definition Any_vector_valid ::
  "('a::len, 'w) env \<Rightarrow> 'a container \<Rightarrow> 'a word \<Rightarrow> error + bool" where
  "Any_vector_valid env c el_size =
     (case Any_vector_el_count c el_size of
        Inl e \<Rightarrow> Inl e
      | Inr el_count0 \<Rightarrow>
          if el_count0 \<noteq> 0 \<and> \<not> container_valid env (c_front c) el_count0 then Inr False
          else if c_size c > c_capacity c then Inr False
          else if c_front c > c_back c then Inr False
          else Inr True)"

definition Any_basic_string_el_count :: "'a::len container \<Rightarrow> 'a word \<Rightarrow> error + 'a word" where
  "Any_basic_string_el_count c el_size = Inr (c_size c)"

definition Any_basic_string_valid ::
  "('a::len, 'w) env \<Rightarrow> 'a container \<Rightarrow> 'a word \<Rightarrow> error + bool" where
  "Any_basic_string_valid env c el_size =
     (case Any_basic_string_el_count c el_size of
        Inl e \<Rightarrow> Inl e
      | Inr n \<Rightarrow>
          if \<not> container_valid env (c_c_str c) n then Inr False
          else if STL_DINKUMWARE env then
            (if el_size = 0 then Inl DivByZero
             else if c_Myres c < (16 div el_size) - 1 then Inr False
             else if c_Mysize c > c_Myres c then Inr False
             else Inr True)
          else Inr True)"

definition Any_hash_map_el_count :: "'a::len container \<Rightarrow> 'a word \<Rightarrow> error + 'a word" where
  "Any_hash_map_el_count c el_size = Inr (c_size c)"

definition Any_hash_map_valid ::
  "('a::len, 'w) env \<Rightarrow> 'a container \<Rightarrow> 'a word \<Rightarrow> error + bool" where
  "Any_hash_map_valid env c el_size =
     (case Any_hash_map_el_count c el_size of
        Inl e \<Rightarrow> Inl e
      | Inr n \<Rightarrow> if \<not> container_valid env (c_begin_elem c) n then Inr False else Inr True)"

definition Any_hash_set_el_count :: "'a::len container \<Rightarrow> 'a word \<Rightarrow> error + 'a word" where
  "Any_hash_set_el_count c el_size = Inr (c_size c)"

definition Any_hash_set_valid ::
  "('a::len, 'w) env \<Rightarrow> 'a container \<Rightarrow> 'a word \<Rightarrow> error + bool" where
  "Any_hash_set_valid env c el_size =
     (case Any_hash_set_el_count c el_size of
        Inl e \<Rightarrow> Inl e
      | Inr n \<Rightarrow> if \<not> container_valid env (c_begin_elem c) n then Inr False else Inr True)"

definition Any_slist_el_count :: "'a::len container \<Rightarrow> 'a word \<Rightarrow> error + 'a word" where
  "Any_slist_el_count c el_size = Inr (c_size c)"

definition Any_slist_valid ::
  "('a::len, 'w) env \<Rightarrow> 'a container \<Rightarrow> 'a word \<Rightarrow> error + bool" where
  "Any_slist_valid env c el_size =
     (case Any_slist_el_count c el_size of
        Inl e \<Rightarrow> Inl e
      | Inr n \<Rightarrow> if \<not> container_valid env (c_front c) n then Inr False else Inr True)"

text \<open>
  \<^verbatim>\<open>t->el_count(el_size)\<close>, \<^verbatim>\<open>t->valid(el_size)\<close> and \<^verbatim>\<open>t->begin()\<close> through a
  pointer to the adapter. A derived adapter with an empty body (\<^verbatim>\<open>Any_multimap\<close>,
  \<^verbatim>\<open>Any_multiset\<close>, \<^verbatim>\<open>Any_queue\<close>, \<^verbatim>\<open>Any_stack\<close>, the hash multi-containers)
  inherits the member of its parent, on the same bytes.
\<close>

fun el_count :: "adapter \<Rightarrow> 'a::len blob \<Rightarrow> 'a word \<Rightarrow> error + 'a word" where
  "el_count Any_deque p el_size = Any_deque_el_count (p std_deque) el_size"
| "el_count Any_list p el_size = Any_list_el_count (p std_list) el_size"
| "el_count Any_map p el_size = Any_map_el_count (p std_map) el_size"
| "el_count Any_multimap p el_size = Any_map_el_count (p std_map) el_size"
| "el_count Any_set p el_size = Any_set_el_count (p std_set) el_size"
| "el_count Any_multiset p el_size = Any_set_el_count (p std_set) el_size"
| "el_count Any_vector p el_size = Any_vector_el_count (p std_vector) el_size"
| "el_count Any_basic_string p el_size = Any_basic_string_el_count (p std_string) el_size"
| "el_count Any_queue p el_size = Any_deque_el_count (p std_deque) el_size"
| "el_count Any_stack p el_size = Any_deque_el_count (p std_deque) el_size"
| "el_count Any_hash_map p el_size = Any_hash_map_el_count (p STL_HASH_MAP) el_size"
| "el_count Any_hash_multimap p el_size = Any_hash_map_el_count (p STL_HASH_MAP) el_size"
| "el_count Any_hash_set p el_size = Any_hash_set_el_count (p STL_HASH_SET) el_size"
| "el_count Any_hash_multiset p el_size = Any_hash_set_el_count (p STL_HASH_SET) el_size"
| "el_count Any_slist p el_size = Any_slist_el_count (p STL_SLIST) el_size"

fun valid :: "('a::len, 'w) env \<Rightarrow> adapter \<Rightarrow> 'a blob \<Rightarrow> 'a word \<Rightarrow> error + bool" where
  "valid env Any_deque p el_size = Any_deque_valid env (p std_deque) el_size"
| "valid env Any_list p el_size = Any_list_valid env (p std_list) el_size"
| "valid env Any_map p el_size = Any_map_valid env (p std_map) el_size"
| "valid env Any_multimap p el_size = Any_map_valid env (p std_map) el_size"
| "valid env Any_set p el_size = Any_set_valid env (p std_set) el_size"
| "valid env Any_multiset p el_size = Any_set_valid env (p std_set) el_size"
| "valid env Any_vector p el_size = Any_vector_valid env (p std_vector) el_size"
| "valid env Any_basic_string p el_size = Any_basic_string_valid env (p std_string) el_size"
| "valid env Any_queue p el_size = Any_deque_valid env (p std_deque) el_size"
| "valid env Any_stack p el_size = Any_deque_valid env (p std_deque) el_size"
| "valid env Any_hash_map p el_size = Any_hash_map_valid env (p STL_HASH_MAP) el_size"
| "valid env Any_hash_multimap p el_size = Any_hash_map_valid env (p STL_HASH_MAP) el_size"
| "valid env Any_hash_set p el_size = Any_hash_set_valid env (p STL_HASH_SET) el_size"
| "valid env Any_hash_multiset p el_size = Any_hash_set_valid env (p STL_HASH_SET) el_size"
| "valid env Any_slist p el_size = Any_slist_valid env (p STL_SLIST) el_size"

definition begin_it :: "adapter \<Rightarrow> 'a::len blob \<Rightarrow> 'a cursor" where
  "begin_it T p = c_begin (p (base T))"

subsection \<open>Iteration\<close>

text \<open>
  Memory as the code reads it. The node accessors \<^verbatim>\<open>_Left\<close>, \<^verbatim>\<open>_Parent\<close>,
  \<^verbatim>\<open>_Right\<close>, the addresses of the node members \<^verbatim>\<open>_Isnil\<close> and \<^verbatim>\<open>_Myval\<close> in
  the layout of \<^verbatim>\<open>std::map<int,int>\<close>, \<^verbatim>\<open>sizeof(value_type)\<close>, the deque member
  \<^verbatim>\<open>_Map\<close> and the operators \<^verbatim>\<open>*\<close> and \<^verbatim>\<open>++\<close> of the standard iterators
  belong to the standard headers, which are not part of the source.
\<close>

record (overloaded) 'a heap =
  load_u8 :: "'a word \<Rightarrow> 8 word"
  load_ptr :: "'a word \<Rightarrow> 'a word"
  sizeof_ptr :: "'a word"
  Left :: "'a word \<Rightarrow> 'a word"
  Parent :: "'a word \<Rightarrow> 'a word"
  Right :: "'a word \<Rightarrow> 'a word"
  addr_Isnil :: "'a word \<Rightarrow> 'a word"
  addr_Myval :: "'a word \<Rightarrow> 'a word"
  sizeof_value_type :: "'a word"
  deque_Map :: "'a word \<Rightarrow> 'a word"
  op_deref :: "std_class \<Rightarrow> 'a cursor \<Rightarrow> 'a word"
  op_incr :: "std_class \<Rightarrow> 'a cursor \<Rightarrow> 'a cursor"

text \<open>\<^verbatim>\<open>Any_map::_Isnil\<close>: the flag byte, moved by the difference of the element sizes.\<close>

definition Isnil :: "'a::len heap \<Rightarrow> 'a word \<Rightarrow> 'a word \<Rightarrow> error + bool" where
  "Isnil h Pnode el_size =
     (let p = addr_Isnil h Pnode + (el_size - sizeof_value_type h);
          b = load_u8 h p
      in if b \<le> 1 then Inr (b \<noteq> 0) else Inl AssertFailed)"

text \<open>
  The two loops of \<^verbatim>\<open>Any_map::iter::advance\<close>. On memory that is not a tree they
  need not end; not returning is \<open>None\<close>.
\<close>

partial_function (option) leftmost ::
  "'a::len heap \<Rightarrow> 'a word \<Rightarrow> 'a word \<Rightarrow> (error + 'a word) option" where
  "leftmost h el_size Pnode =
     (let r = Isnil h (Left h Pnode) el_size in
      if r = Inr False then leftmost h el_size (Left h Pnode)
      else Some (map_sum id (\<lambda>_. Pnode) r))"

partial_function (option) climb ::
  "'a::len heap \<Rightarrow> 'a word \<Rightarrow> 'a word \<Rightarrow> (error + 'a word) option" where
  "climb h el_size Ptr =
     (let Pnode = Parent h Ptr; r = Isnil h Pnode el_size in
      if r = Inr False \<and> Ptr = Right h Pnode then climb h el_size Pnode
      else Some (map_sum id (\<lambda>_. Pnode) r))"

definition Any_map_iter_advance ::
  "'a::len heap \<Rightarrow> 'a word \<Rightarrow> 'a word \<Rightarrow> (error + 'a word) option" where
  "Any_map_iter_advance h el_size Ptr =
     (case Isnil h Ptr el_size of
        Inl e \<Rightarrow> Some (Inl e)
      | Inr nil \<Rightarrow>
          if nil then Some (Inr Ptr)
          else (let Pnode = Right h Ptr in
                case Isnil h Pnode el_size of
                  Inl e \<Rightarrow> Some (Inl e)
                | Inr nil' \<Rightarrow>
                    if \<not> nil' then leftmost h el_size Pnode
                    else climb h el_size Ptr))"

text \<open>\<^verbatim>\<open>Any_vector::iter::advance\<close>.\<close>

definition Any_vector_iter_advance :: "'a::len cursor \<Rightarrow> 'a word \<Rightarrow> 'a cursor" where
  "Any_vector_iter_advance it el_size = it\<lparr>it_Ptr := it_Ptr it + el_size\<rparr>"

text \<open>\<^verbatim>\<open>Any_deque::get_item\<close>, for the deque at address \<open>d\<close>.\<close>

definition get_item :: "'a::len heap \<Rightarrow> 'a word \<Rightarrow> 'a word \<Rightarrow> 'a word \<Rightarrow> error + 'a word" where
  "get_item h d i el_size =
     (let map0 = deque_Map h d in
      case el_per_bucket el_size of
        Inl e \<Rightarrow> Inl e
      | Inr epb \<Rightarrow>
          (let bucket_idx = i div epb;
               idx_in_bucket = i - bucket_idx * epb;
               bucket = load_ptr h (map0 + bucket_idx * sizeof_ptr h)
           in Inr (bucket + idx_in_bucket * el_size)))"

definition Any_deque_iter_deref :: "'a::len heap \<Rightarrow> 'a cursor \<Rightarrow> 'a word \<Rightarrow> error + 'a word" where
  "Any_deque_iter_deref h it el_size = get_item h (it_Mycont it) (it_Myoff it) el_size"

text \<open>
  The function template \<^verbatim>\<open>stl_iterator<T>\<close>. It has explicit specialisations for
  \<^verbatim>\<open>Any_vector\<close> and, under \<^verbatim>\<open>STL_DINKUMWARE != 0\<close>, for \<^verbatim>\<open>Any_deque\<close> and
  \<^verbatim>\<open>Any_map\<close>. A specialisation is chosen for exactly its own type; every other
  adapter, also one derived from these three, instantiates the primary template.
\<close>

definition stl_iterator :: "('a::len, 'w) env \<Rightarrow> adapter \<Rightarrow> iterator_fn" where
  "stl_iterator env T =
     (if T = Any_vector then stl_iterator_Any_vector
      else if T = Any_deque \<and> STL_DINKUMWARE env then stl_iterator_Any_deque
      else if T = Any_map \<and> STL_DINKUMWARE env then stl_iterator_Any_map
      else stl_iterator_primary T)"

text \<open>
  Calling the stored function on the iterator in \<^verbatim>\<open>it_mem\<close>: the address of the
  element and the iterator after the call.
\<close>

fun call_iterator ::
  "'a::len heap \<Rightarrow> iterator_fn \<Rightarrow> 'a cursor \<Rightarrow> 'a word \<Rightarrow> (error + 'a word \<times> 'a cursor) option"
  where
  "call_iterator h (stl_iterator_primary T) it el_size =
     Some (Inr (op_deref h (base T) it, op_incr h (base T) it))"
| "call_iterator h stl_iterator_Any_vector it el_size =
     Some (Inr (it_Ptr it, Any_vector_iter_advance it el_size))"
| "call_iterator h stl_iterator_Any_deque it el_size =
     (case Any_deque_iter_deref h it el_size of
        Inl e \<Rightarrow> Some (Inl e)
      | Inr p \<Rightarrow> Some (Inr (p, op_incr h std_deque it)))"
| "call_iterator h stl_iterator_Any_map it el_size =
     (let p = addr_Myval h (it_Ptr it) in
      case Any_map_iter_advance h el_size (it_Ptr it) of
        None \<Rightarrow> None
      | Some (Inl e) \<Rightarrow> Some (Inl e)
      | Some (Inr q) \<Rightarrow> Some (Inr (p, it\<lparr>it_Ptr := q\<rparr>)))"

subsection \<open>\<^verbatim>\<open>get_container_info\<close> and the dispatcher\<close>

record (overloaded) 'a outs =
  out_el_count :: "'a word"
  out_el_iterator :: "iterator_fn option"
  out_it_mem :: "'a cursor"

text \<open>
  The three stores precede the call of \<^verbatim>\<open>valid\<close>, as in the source. A failed
  \<^verbatim>\<open>debug_assert\<close> is an error.
\<close>

definition get_container_info ::
  "('a::len, 'w) env \<Rightarrow> adapter \<Rightarrow> 'a blob \<Rightarrow> 'a word \<Rightarrow> 'a word \<Rightarrow> 'a outs
   \<Rightarrow> error + bool \<times> 'a outs" where
  "get_container_info env T t size0 el_size outs =
     (if sizeof_T env T \<noteq> size0 then Inl AssertFailed
      else if \<not> sizeof_iterator env T < DEBUG_STL_MAX_ITERATOR_SIZE env then Inl AssertFailed
      else
        (case el_count T t el_size of
           Inl e \<Rightarrow> Inl e
         | Inr n \<Rightarrow>
             (let outs1 = outs\<lparr>out_el_count := n\<rparr>;
                  outs2 = outs1\<lparr>out_el_iterator := Some (stl_iterator env T)\<rparr>;
                  outs3 = outs2\<lparr>out_it_mem := begin_it T t\<rparr>
              in case valid env T t el_size of
                   Inl e \<Rightarrow> Inl e
                 | Inr v \<Rightarrow> Inr (v, outs3))))"

text \<open>The table that the macros \<^verbatim>\<open>CONTAINER\<close> and \<^verbatim>\<open>STD_CONTAINER\<close> write out.\<close>

definition CONTAINER :: "adapter \<Rightarrow> string \<Rightarrow> adapter \<times> string" where
  "CONTAINER name type_name_pattern = (name, type_name_pattern)"

definition STD_CONTAINER :: "adapter \<Rightarrow> string \<Rightarrow> adapter \<times> string" where
  "STD_CONTAINER T name = CONTAINER T (''std::'' @ name @ ''<*>'')"

definition pattern_table :: "('a::len, 'w) env \<Rightarrow> (adapter \<times> string) list" where
  "pattern_table env =
     [STD_CONTAINER Any_deque ''deque'',
      STD_CONTAINER Any_list ''list'',
      STD_CONTAINER Any_map ''map'',
      STD_CONTAINER Any_multimap ''multimap'',
      STD_CONTAINER Any_set ''set'',
      STD_CONTAINER Any_multiset ''multiset'',
      STD_CONTAINER Any_vector ''vector'',
      STD_CONTAINER Any_basic_string ''basic_string'',
      STD_CONTAINER Any_queue ''queue'',
      STD_CONTAINER Any_stack ''stack'']
     @ (if HAVE_STL_HASH env then
          [CONTAINER Any_hash_map (STL_HASH_MAP_str env @ ''<*>''),
           CONTAINER Any_hash_multimap (STL_HASH_MULTIMAP_str env @ ''<*>''),
           CONTAINER Any_hash_set (STL_HASH_SET_str env @ ''<*>''),
           CONTAINER Any_hash_multiset (STL_HASH_MULTISET_str env @ ''<*>'')]
        else [])
     @ (if HAVE_STL_SLIST env then [CONTAINER Any_slist (STL_SLIST_str env @ ''<*>'')] else [])"

text \<open>The \<^verbatim>\<open>else if\<close> chain: the first entry whose pattern matches.\<close>

fun first_match :: "('a::len, 'w) env \<Rightarrow> string \<Rightarrow> (adapter \<times> string) list \<Rightarrow> adapter option"
  where
  "first_match env type_name [] = None"
| "first_match env type_name ((T, pat) # rest) =
     (if match_wildcard env type_name pat then Some T else first_match env type_name rest)"

definition stl_get_container_info ::
  "('a::len, 'w) env \<Rightarrow> 'w list \<Rightarrow> 'a blob \<Rightarrow> 'a word \<Rightarrow> 'a word \<Rightarrow> 'a outs
   \<Rightarrow> error + int \<times> 'a outs" where
  "stl_get_container_info env wtype_name p size0 el_size outs =
     (if MSC_VER_ge_1400 env then Inr (- 1, outs)
      else
        (let type_name = snprintf_ws env wtype_name in
         case first_match env type_name (pattern_table env) of
           None \<Rightarrow> Inr (STL_CNT_UNKNOWN env, outs)
         | Some T \<Rightarrow>
             (case get_container_info env T p size0 el_size outs of
                Inl e \<Rightarrow> Inl e
              | Inr (valid0, outs') \<Rightarrow>
                  if \<not> valid0 then Inr (STL_CNT_INVALID env, outs')
                  else Inr (0, outs'))))"

section \<open>Well-formed inputs and test data\<close>

subsection \<open>Strings without a rule of the simplifier\<close>

text \<open>
  Every rule of the \<^verbatim>\<open>else if\<close> chain that does not copy the character starts with
  one of six strings: the ten patterns after the early exit all start with
  \<^verbatim>\<open>std::\<close>. \<open>has_trigger s\<close> says that one of the six occurs in \<open>s\<close>.
\<close>

definition starts :: "string \<Rightarrow> string \<Rightarrow> bool" where
  "starts s p = (take (length p) s = p)"

definition triggered :: "string \<Rightarrow> bool" where
  "triggered s =
     (starts s ''::_Node'' \<or> starts s ''unsigned short'' \<or> starts s ''unsigned int'' \<or>
      starts s ''unsigned __int64'' \<or> starts s '',0> '' \<or> starts s ''std::'')"

fun has_trigger :: "string \<Rightarrow> bool" where
  "has_trigger [] = False"
| "has_trigger (c # cs) = (triggered (c # cs) \<or> has_trigger cs)"

subsection \<open>Names on which one pass is enough\<close>

text \<open>
  What a rule removes or writes can bring a string that starts a rule together from
  two parts. \<open>joins a b\<close> says that one of the six strings lies across the place where
  \<open>a\<close> ends and \<open>b\<close> begins: a proper, non-empty prefix of it ends \<open>a\<close> and the rest
  of it starts \<open>b\<close>.
\<close>

definition triggers :: "string list" where
  "triggers = [''::_Node'', ''unsigned short'', ''unsigned int'', ''unsigned __int64'',
               '',0> '', ''std::'']"

definition joins :: "string \<Rightarrow> string \<Rightarrow> bool" where
  "joins a b =
     list_ex (\<lambda>t. list_ex (\<lambda>k. k \<le> length a \<and> drop (length a - k) a = take k t \<and>
                                  take (length t - k) b = drop k t) [1..<length t]) triggers"

text \<open>
  \<open>classify s\<close> names the rule that the \<^verbatim>\<open>else if\<close> chain takes where the name
  from the read pointer on is \<open>s\<close>: \<open>Copy\<close> for the two branches that copy the
  character, \<open>StripNode\<close> for \<^verbatim>\<open>::_Node\<close>, \<open>Repl what w\<close> for \<^verbatim>\<open>REPLACE(what, w)\<close>,
  \<open>Strip what\<close> for \<^verbatim>\<open>STRIP(what)\<close>, and \<open>Arg n\<close> for the two branches that discard
  a template argument, with their constant \<open>n\<close>.
\<close>

datatype rule = Copy | StripNode | Repl string string | Strip string | Arg nat

definition classify :: "string \<Rightarrow> rule" where
  "classify s =
     (if starts s ''::_Node'' then StripNode
      else if starts s ''unsigned short'' then Repl ''unsigned short'' ''u16''
      else if starts s ''unsigned int'' then Repl ''unsigned int'' ''uint''
      else if starts s ''unsigned __int64'' then Repl ''unsigned __int64'' ''u64''
      else if starts s '',0> '' then Strip '',0> ''
      else if hd s \<noteq> CHR ''s'' then Copy
      else if starts s ''std::_List_nod'' then Repl ''std::_List_nod'' ''list''
      else if starts s ''std::_Tree_nod'' then Repl ''std::_Tree_nod'' ''map''
      else if starts s ''std::basic_string<char,''
        then Repl ''std::basic_string<char,'' ''string<''
      else if starts s ''std::basic_string<unsigned short,''
        then Repl ''std::basic_string<unsigned short,'' ''wstring<''
      else if starts s ''std::char_traits<char>,'' then Strip ''std::char_traits<char>,''
      else if starts s ''std::char_traits<unsigned short>,''
        then Strip ''std::char_traits<unsigned short>,''
      else if starts s ''std::_Tmap_traits'' then Strip ''std::_Tmap_traits''
      else if starts s ''std::_Tset_traits'' then Strip ''std::_Tset_traits''
      else if starts s ''std::allocator<'' then Arg 15
      else if starts s ''std::less<'' then Arg 10
      else if starts s ''std::'' then Strip ''std::''
      else Copy)"

text \<open>
  The part of a name that is left when a template argument has been discarded from
  depth \<open>k\<close>: the text behind the \<^verbatim>\<open>>\<close> that closes the depth, and nothing where
  the name ends before it.
\<close>

fun skip_arg :: "nat \<Rightarrow> string \<Rightarrow> string" where
  "skip_arg k [] = []"
| "skip_arg k (c # cs) =
     (if c = CHR ''<'' then skip_arg (Suc k) cs
      else if c = CHR ''>'' then (if k \<le> 1 then cs else skip_arg (k - 1) cs)
      else skip_arg k cs)"

text \<open>
  \<open>fire r acc p rest\<close> describes a rule other than \<open>Copy\<close> on a name of which
  \<open>acc\<close> has been written, \<open>p\<close> is the character in front of the read pointer
  (\<^verbatim>\<open>src[-1]\<close>, none at the start of the name) and \<open>rest\<close> is still to be read. It
  gives the text written so far that the rule keeps, the text the rule writes, the new
  character in front of the read pointer and the name still to be read. There is no
  result where the read pointer would move past the terminator or the write pointer
  in front of the array.
\<close>

fun fire :: "rule \<Rightarrow> string \<Rightarrow> char option \<Rightarrow> string \<Rightarrow> (string \<times> string \<times> char option \<times> string) option"
  where
  "fire Copy acc p rest = None"
| "fire StripNode acc p rest =
     (if length rest < 8 then None
      else Some (acc, if p \<noteq> None \<and> p \<noteq> Some (CHR '' '') then '' '' else [],
                 Some (rest ! 7), drop 8 rest))"
| "fire (Repl what w) acc p rest = Some (acc, w, Some (last what), drop (length what) rest)"
| "fire (Strip what) acc p rest = Some (acc, [], Some (last what), drop (length what) rest)"
| "fire (Arg n) acc p rest =
     (if length rest < n + 1 then None
      else if p = Some (CHR '','') then
        (if acc = [] then None
         else Some (butlast acc, [], Some (CHR ''>''), skip_arg 1 (drop (n + 1) rest)))
      else Some (acc, [], Some (CHR ''>''), skip_arg 1 (drop (n + 1) rest)))"

lemma skip_arg_length: "length (skip_arg k xs) \<le> length xs"
  by (induction k xs rule: skip_arg.induct) auto

lemma classify_nonempty:
  "classify s = Repl what w \<Longrightarrow> what \<noteq> []"
  "classify s = Strip what \<Longrightarrow> what \<noteq> []"
  by (auto simp: classify_def split: if_splits)

lemma fire_shorter:
  "fire r acc p rest = Some (a, w, p', rest') \<Longrightarrow> classify rest = r \<Longrightarrow> rest \<noteq> [] \<Longrightarrow>
   length rest' < length rest"
proof (cases r)
  case (Arg n)
  assume f: "fire r acc p rest = Some (a, w, p', rest')"
  then have "rest' = skip_arg 1 (drop (n + 1) rest)" and "\<not> length rest < n + 1"
    using Arg by (auto split: if_splits)
  then show ?thesis using skip_arg_length [of 1 "drop (n + 1) rest"] by auto
qed (auto dest: classify_nonempty split: if_splits)

text \<open>
  \<open>tame acc p rest\<close> follows the name from left to right, rule by rule. It holds where
  every rule has a result, and no rule brings one of the six strings together:
  neither across the text it keeps and the text it writes, nor across the text
  written and the name still to be read.
\<close>

function tame :: "string \<Rightarrow> char option \<Rightarrow> string \<Rightarrow> bool" where
  "tame acc p rest =
     (if rest = [] then True
      else if classify rest = Copy then tame (acc @ [hd rest]) (Some (hd rest)) (tl rest)
      else (case fire (classify rest) acc p rest of
              None \<Rightarrow> False
            | Some (a, w, p', rest') \<Rightarrow>
                \<not> joins a w \<and> \<not> joins (a @ w) rest' \<and> tame (a @ w) p' rest'))"
  by pat_completeness auto
termination
proof (relation "measure (\<lambda>(acc, p, rest). length rest)")
  show "wf (measure (\<lambda>(acc, p, rest). length rest))" by simp
next
  fix acc :: string and p :: "char option" and rest :: string
  assume "rest \<noteq> []"
  then show "((acc @ [hd rest], Some (hd rest), tl rest), acc, p, rest)
               \<in> measure (\<lambda>(acc, p, rest). length rest)"
    by (cases rest) auto
next
  fix acc :: string and p :: "char option" and rest :: string and x2 a x2a w x2b p' rest'
  assume "rest \<noteq> []" "classify rest \<noteq> Copy"
    "fire (classify rest) acc p rest = Some x2" "(a, x2a) = x2" "(w, x2b) = x2a"
    "(p', rest') = x2b"
  then have "fire (classify rest) acc p rest = Some (a, w, p', rest')" by auto
  then have "length rest' < length rest" using \<open>rest \<noteq> []\<close> fire_shorter by blast
  then show "((a @ w, p', rest'), acc, p, rest) \<in> measure (\<lambda>(acc, p, rest). length rest)"
    by simp
qed

declare tame.simps [simp del]

text \<open>The patterns of \<^verbatim>\<open>REPLACE\<close> with their replacements.\<close>

definition replacements :: "(string \<times> string) list" where
  "replacements =
     [(''unsigned short'', ''u16''), (''unsigned int'', ''uint''), (''unsigned __int64'', ''u64''),
      (''std::_List_nod'', ''list''), (''std::_Tree_nod'', ''map''),
      (''std::basic_string<char,'', ''string<''),
      (''std::basic_string<unsigned short,'', ''wstring<'')]"

text \<open>
  A state of the loop in which \<open>acc\<close> has been written at the start of the array and
  \<open>rest\<close>, the terminator and the bytes behind it are at the read pointer, with \<open>p\<close>
  the character in front of the read pointer. At the end of the name the loop can
  still be in discard mode.
\<close>

definition rep :: "sstate \<Rightarrow> string \<Rightarrow> char option \<Rightarrow> string \<Rightarrow> bool" where
  "rep st acc p rest =
     (dst st = int (length acc) \<and> length acc \<le> src st \<and> take (length acc) (buf st) = acc \<and>
      (\<exists>junk. drop (src st) (buf st) = rest @ NUL # junk) \<and> NUL \<notin> set rest \<and> NUL \<notin> set acc \<and>
      (rest \<noteq> [] \<longrightarrow> nesting st = 0 \<and>
         p = (if src st = 0 then None else Some (buf st ! (src st - 1)))))"

text \<open>The name of a tree node of a map, as the debug information has it.\<close>

definition tree_node_name :: string where
  "tree_node_name = ''std::_Tree_nod<std::_Tmap_traits<int,unsigned int,std::less<int>,''
     @ ''std::allocator<std::pair<int const ,unsigned int> >,0> >::_Node *''"

subsection \<open>Terminated arrays\<close>

text \<open>
  The state of the simplifier on an array whose last byte is the terminator, with
  the write pointer not in front of the read pointer.
\<close>

definition terminated :: "sstate \<Rightarrow> bool" where
  "terminated st = (buf st \<noteq> [] \<and> last (buf st) = NUL \<and> dst st \<le> int (src st))"

subsection \<open>Matching brackets\<close>

text \<open>
  \<open>scan k w\<close> counts brackets over \<open>w\<close> from depth \<open>k\<close>, \<^verbatim>\<open><\<close> as \<open>+1\<close> and
  \<^verbatim>\<open>>\<close> as \<open>-1\<close>, and is \<open>None\<close> where the depth reaches 0 inside \<open>w\<close>. With
  \<open>scan 1 w = Some 1\<close> the brackets of \<open>w\<close> are balanced, and a \<^verbatim>\<open>>\<close> that follows
  \<open>w\<close> matches the \<^verbatim>\<open><\<close> that \<open>w\<close> follows.
\<close>

fun scan :: "int \<Rightarrow> string \<Rightarrow> int option" where
  "scan k [] = Some k"
| "scan k (c # cs) =
     (let k' = (if c = CHR ''<'' then k + 1 else if c = CHR ''>'' then k - 1 else k)
      in if k' = 0 then None else scan k' cs)"

subsection \<open>A tree of nodes in memory\<close>

text \<open>
  \<open>tree_in_heap h el_size head par t\<close>: the nodes of the binary tree \<open>t\<close> (a tree of
  node addresses) are laid out in \<open>h\<close> the way the ordered containers lay them out. No
  node of \<open>t\<close> has the end flag set, the child links follow \<open>t\<close> with the sentinel
  \<open>head\<close> in place of a missing child, and the parent link of the root of \<open>t\<close> is
  \<open>par\<close>. \<open>map_in_heap\<close> is the whole container: the sentinel has the flag set, it is
  the parent of the root, and no node occurs twice.
\<close>

fun root_ptr :: "'a word \<Rightarrow> 'a word tree \<Rightarrow> 'a word" where
  "root_ptr head Leaf = head"
| "root_ptr head (Node l a r) = a"

fun tree_in_heap ::
  "'a::len heap \<Rightarrow> 'a word \<Rightarrow> 'a word \<Rightarrow> 'a word \<Rightarrow> 'a word tree \<Rightarrow> bool" where
  "tree_in_heap h el_size head par Leaf = True"
| "tree_in_heap h el_size head par (Node l a r) =
     (Isnil h a el_size = Inr False \<and> Left h a = root_ptr head l \<and>
      Right h a = root_ptr head r \<and> Parent h a = par \<and>
      tree_in_heap h el_size head a l \<and> tree_in_heap h el_size head a r)"

definition map_in_heap :: "'a::len heap \<Rightarrow> 'a word \<Rightarrow> 'a word \<Rightarrow> 'a word tree \<Rightarrow> bool" where
  "map_in_heap h el_size head t =
     (Isnil h head el_size = Inr True \<and> tree_in_heap h el_size head head t \<and>
      distinct (inorder t))"

subsection \<open>A concrete environment\<close>

text \<open>
  Modelled from the spec: \<^verbatim>\<open>match_wildcard\<close> of \<^verbatim>\<open>lib.h\<close> is not part of the
  source. The spec says of the patterns that each "uses a single multi-character
  wildcard token to match template-argument lists; matching is case-sensitive
  exact-prefix-then-wildcard". \<open>wildcard s pat\<close>: every character of \<open>pat\<close> stands for
  itself, except \<^verbatim>\<open>*\<close>, which stands for any string. It is used where a concrete
  environment is needed, never in a general statement.
\<close>

fun wildcard :: "string \<Rightarrow> string \<Rightarrow> bool" where
  "wildcard [] [] = True"
| "wildcard (c # cs) [] = False"
| "wildcard [] (p # ps) = (p = CHR ''*'' \<and> wildcard [] ps)"
| "wildcard (c # cs) (p # ps) =
     (if p = CHR ''*'' then wildcard (c # cs) ps \<or> wildcard cs (p # ps)
      else c = p \<and> wildcard cs ps)"

text \<open>
  A 32-bit environment without the optional containers. \<open>guard\<close> is the toolchain
  guard, \<open>dinkum\<close> the library family. The values of the two result codes and the
  sizes are sample values.
\<close>

definition env0 :: "bool \<Rightarrow> bool \<Rightarrow> (32, char) env" where
  "env0 guard dinkum =
     \<lparr>MSC_VER_ge_1400 = guard, STL_DINKUMWARE = dinkum, HAVE_STL_HASH = False,
      HAVE_STL_SLIST = False, STL_HASH_MAP_str = [], STL_HASH_MULTIMAP_str = [],
      STL_HASH_SET_str = [], STL_HASH_MULTISET_str = [], STL_SLIST_str = [],
      STL_CNT_UNKNOWN = - 100, STL_CNT_INVALID = - 101,
      DEBUG_STL_MAX_ITERATOR_SIZE = 64, sizeof_T = (\<lambda>T. 16), sizeof_iterator = (\<lambda>T. 8),
      match_wildcard = wildcard, debug_is_bogus_pointer = (\<lambda>p. p = 0),
      snprintf_ws = (\<lambda>w. w)\<rparr>"

definition cursor0 :: "32 word \<Rightarrow> 32 cursor" where
  "cursor0 a = \<lparr>it_Ptr = a, it_Mycont = 0, it_Myoff = 0\<rparr>"

text \<open>A vector of five \<^verbatim>\<open>int\<close> at address \<open>0x1000\<close>, with room for eight.\<close>

definition vec0 :: "32 container" where
  "vec0 = \<lparr>c_size = 5, c_capacity = 8, c_front = 0x1000, c_back = 0x1010,
           c_begin = cursor0 0x1000, c_begin_elem = 0x1000, c_c_str = 0, c_Myoff = 0,
           c_Mysize = 0, c_Mapsize = 0, c_Myres = 0\<rparr>"

definition blob0 :: "32 blob" where
  "blob0 = (\<lambda>c. vec0)"

text \<open>The same bytes with a reported size of 9, and with the back address in front.\<close>

definition blob_size9 :: "32 blob" where
  "blob_size9 = (\<lambda>c. vec0\<lparr>c_size := 9\<rparr>)"

definition blob_back :: "32 blob" where
  "blob_back = (\<lambda>c. vec0\<lparr>c_back := 0xFFC\<rparr>)"

definition outs0 :: "32 outs" where
  "outs0 = \<lparr>out_el_count = 0, out_el_iterator = None, out_it_mem = cursor0 0\<rparr>"

text \<open>
  Memory for the iterators, 32 bits wide. A deque at address \<open>0x300\<close> has its array
  of block addresses at \<open>0x200\<close>, with two blocks at \<open>0x1000\<close> and \<open>0x2000\<close>. A tree of
  three nodes \<open>0x10\<close>, \<open>0x20\<close> (the root), \<open>0x30\<close> has its sentinel at \<open>0x100\<close>; its
  values are 16 bytes long where those of \<^verbatim>\<open>std::map<int,int>\<close> are 8, so the end
  flag of a node is 29 bytes into the node and not 21. The operators of the standard
  iterators are the parameters \<open>nd\<close> and \<open>ni\<close>.
\<close>

definition heap0 ::
  "(std_class \<Rightarrow> 32 cursor \<Rightarrow> 32 word) \<Rightarrow> (std_class \<Rightarrow> 32 cursor \<Rightarrow> 32 cursor) \<Rightarrow> 32 heap"
  where
  "heap0 nd ni =
     \<lparr>load_u8 = (\<lambda>a. if a = 0x11D then 1 else 0),
      load_ptr = (\<lambda>a. if a = 0x200 then 0x1000 else if a = 0x204 then 0x2000 else 0),
      sizeof_ptr = 4,
      Left = (\<lambda>p. if p = 0x20 then 0x10 else 0x100),
      Parent = (\<lambda>p. if p = 0x10 \<or> p = 0x30 then 0x20 else if p = 0x20 then 0x100 else 0x20),
      Right = (\<lambda>p. if p = 0x20 then 0x30 else 0x100),
      addr_Isnil = (\<lambda>p. p + 21),
      addr_Myval = (\<lambda>p. p + 12),
      sizeof_value_type = 8,
      deque_Map = (\<lambda>d. if d = 0x300 then 0x200 else 0),
      op_deref = nd,
      op_incr = ni\<rparr>"

definition heap1 :: "32 heap" where
  "heap1 = heap0 (\<lambda>c it. it_Ptr it) (\<lambda>c it. it)"

definition tree0 :: "32 word tree" where
  "tree0 = Node (Node Leaf 0x10 Leaf) 0x20 (Node Leaf 0x30 Leaf)"

definition deque_it0 :: "32 cursor" where
  "deque_it0 = \<lparr>it_Ptr = 0, it_Mycont = 0x300, it_Myoff = 2\<rparr>"

section \<open>The dispatcher\<close>

text \<open>
  C1, as the claim states it, fails where the toolchain guard is compiled in: the name
  matches the entry of the vector, the adapter reports the blob valid, and the call
  returns \<open>-1\<close>, not \<open>0\<close>.
\<close>

theorem stl_get_container_info_guard_counterexample:
  "first_match (env0 True True)
     (snprintf_ws (env0 True True) ''std::vector<int,std::allocator<int> >'')
     (pattern_table (env0 True True)) = Some Any_vector
   \<and> valid (env0 True True) Any_vector blob0 4 = Inr True
   \<and> stl_get_container_info (env0 True True) ''std::vector<int,std::allocator<int> >''
        blob0 16 4 outs0 = Inr (- 1, outs0)
   \<and> map_sum id fst (stl_get_container_info (env0 True True)
        ''std::vector<int,std::allocator<int> >'' blob0 16 4 outs0) \<noteq> Inr 0"
  by (simp add: env0_def pattern_table_def STD_CONTAINER_def CONTAINER_def
      stl_get_container_info_def Any_vector_valid_def Any_vector_el_count_def
      container_valid_def vec0_def blob0_def blob_size9_def blob_back_def)

text \<open>
  C1, amended: in a build without the toolchain guard, a type name that matches no
  entry of the table gives \<^verbatim>\<open>STL_CNT_UNKNOWN\<close> and leaves the outputs as they were,
  whatever the blob, its size and the element size are (the right-hand side names none
  of them). A type name whose first matching entry is \<open>T\<close>, where the two assertions
  of \<^verbatim>\<open>get_container_info\<close> hold and the adapter computes its count and its validity,
  gives \<^verbatim>\<open>STL_CNT_INVALID\<close> if \<open>valid\<close> returned false and 0 if it returned true.
\<close>

theorem stl_get_container_info_result:
  assumes "\<not> MSC_VER_ge_1400 env"
  shows "(first_match env (snprintf_ws env w) (pattern_table env) = None \<longrightarrow>
            stl_get_container_info env w p sz el outs = Inr (STL_CNT_UNKNOWN env, outs))
       \<and> (first_match env (snprintf_ws env w) (pattern_table env) = Some T \<and>
            sizeof_T env T = sz \<and> sizeof_iterator env T < DEBUG_STL_MAX_ITERATOR_SIZE env \<and>
            el_count T p el = Inr n \<and> valid env T p el = Inr v \<longrightarrow>
            map_sum id fst (stl_get_container_info env w p sz el outs)
              = Inr (if v then 0 else STL_CNT_INVALID env))"
  using assms by (auto simp: stl_get_container_info_def get_container_info_def Let_def)

theorem stl_get_container_info_result_witness:
  "\<not> MSC_VER_ge_1400 (env0 False True)
   \<and> stl_get_container_info (env0 False True) ''int'' blob0 16 4 outs0
       = Inr (- 100, outs0)
   \<and> map_sum id fst (stl_get_container_info (env0 False True)
        ''std::vector<int,std::allocator<int> >'' blob0 16 4 outs0) = Inr 0
   \<and> map_sum id fst (stl_get_container_info (env0 False True)
        ''std::vector<int,std::allocator<int> >'' blob_size9 16 4 outs0)
       = Inr (- 101)"
proof -
  let ?E = "env0 False True :: (32, char) env"
  let ?v = "''std::vector<int,std::allocator<int> >''"
  have g: "\<not> MSC_VER_ge_1400 ?E" by (simp add: env0_def)
  have m0: "first_match ?E (snprintf_ws ?E ''int'') (pattern_table ?E) = None"
    by (simp add: env0_def pattern_table_def STD_CONTAINER_def CONTAINER_def)
  have m1: "first_match ?E (snprintf_ws ?E ?v) (pattern_table ?E) = Some Any_vector"
    by (simp add: env0_def pattern_table_def STD_CONTAINER_def CONTAINER_def)
  have s: "sizeof_T ?E Any_vector = 16"
    "sizeof_iterator ?E Any_vector < DEBUG_STL_MAX_ITERATOR_SIZE ?E"
    "STL_CNT_UNKNOWN ?E = - 100" "STL_CNT_INVALID ?E = - 101"
    by (simp_all add: env0_def)
  have c1: "el_count Any_vector blob0 4 = Inr 5"
    by (simp add: Any_vector_el_count_def vec0_def blob0_def blob_size9_def blob_back_def)
  have v1: "valid ?E Any_vector blob0 4 = Inr True"
    by (simp add: Any_vector_valid_def Any_vector_el_count_def container_valid_def vec0_def blob0_def blob_size9_def blob_back_def
        env0_def)
  have c2: "el_count Any_vector blob_size9 4 = Inr 9"
    by (simp add: Any_vector_el_count_def vec0_def blob0_def blob_size9_def blob_back_def)
  have v2: "valid ?E Any_vector blob_size9 4 = Inr False"
    by (simp add: Any_vector_valid_def Any_vector_el_count_def container_valid_def vec0_def blob0_def blob_size9_def blob_back_def
        env0_def)
  have r0: "stl_get_container_info ?E ''int'' blob0 16 4 outs0 = Inr (- 100, outs0)"
    using stl_get_container_info_result
      [OF g, where w = "''int''" and p = blob0 and sz = 16 and el = 4 and outs = outs0]
      m0 s(3)
    by simp
  have r1: "map_sum id fst (stl_get_container_info ?E ?v blob0 16 4 outs0) = Inr 0"
    using stl_get_container_info_result
      [OF g, where w = ?v and T = Any_vector and sz = 16 and p = blob0 and el = 4
        and n = 5 and v = True and outs = outs0]
      m1 s c1 v1 by simp
  have r2: "map_sum id fst (stl_get_container_info ?E ?v blob_size9 16 4 outs0)
              = Inr (- 101)"
    using stl_get_container_info_result
      [OF g, where w = ?v and T = Any_vector and sz = 16 and p = blob_size9
        and el = 4 and n = 9 and v = False and outs = outs0]
      m1 s c2 v2 by simp
  from g r0 r1 r2 show ?thesis by simp
qed

text \<open>
  C10: \<^verbatim>\<open>get_container_info\<close> stores the element count, the step function and the
  begin iterator before it calls \<open>valid\<close>. Where \<open>valid\<close> then returns false, the
  outputs hold the values computed from the blob, whatever they held before, and the
  dispatcher returns them with \<^verbatim>\<open>STL_CNT_INVALID\<close>.
\<close>

theorem get_container_info_writes_before_valid:
  assumes "sizeof_T env T = sz" "sizeof_iterator env T < DEBUG_STL_MAX_ITERATOR_SIZE env"
    "el_count T p el = Inr n" "valid env T p el = Inr False"
  shows "get_container_info env T p sz el outs =
           Inr (False, \<lparr>out_el_count = n, out_el_iterator = Some (stl_iterator env T),
                        out_it_mem = begin_it T p\<rparr>)
       \<and> (\<not> MSC_VER_ge_1400 env \<and>
          first_match env (snprintf_ws env w) (pattern_table env) = Some T \<longrightarrow>
            stl_get_container_info env w p sz el outs =
              Inr (STL_CNT_INVALID env,
                   \<lparr>out_el_count = n, out_el_iterator = Some (stl_iterator env T),
                    out_it_mem = begin_it T p\<rparr>))"
  using assms by (auto simp: stl_get_container_info_def get_container_info_def Let_def)

theorem get_container_info_writes_before_valid_witness:
  "get_container_info (env0 False True) Any_vector blob_size9 16 4 outs0 =
     Inr (False, \<lparr>out_el_count = 9, out_el_iterator = Some stl_iterator_Any_vector,
                  out_it_mem = cursor0 0x1000\<rparr>)
   \<and> stl_get_container_info (env0 False True) ''std::vector<int,std::allocator<int> >''
        blob_size9 16 4 outs0 =
     Inr (- 101, \<lparr>out_el_count = 9, out_el_iterator = Some stl_iterator_Any_vector,
                  out_it_mem = cursor0 0x1000\<rparr>)
   \<and> outs0 \<noteq> \<lparr>out_el_count = 9, out_el_iterator = Some stl_iterator_Any_vector,
                out_it_mem = cursor0 0x1000\<rparr>"
proof -
  let ?E = "env0 False True :: (32, char) env"
  let ?v = "''std::vector<int,std::allocator<int> >''"
  let ?p = blob_size9
  have g: "\<not> MSC_VER_ge_1400 ?E" by (simp add: env0_def)
  have m: "first_match ?E (snprintf_ws ?E ?v) (pattern_table ?E) = Some Any_vector"
    by (simp add: env0_def pattern_table_def STD_CONTAINER_def CONTAINER_def)
  have s: "sizeof_T ?E Any_vector = 16"
    "sizeof_iterator ?E Any_vector < DEBUG_STL_MAX_ITERATOR_SIZE ?E"
    by (simp_all add: env0_def)
  have c: "el_count Any_vector ?p 4 = Inr 9"
    by (simp add: Any_vector_el_count_def vec0_def blob0_def blob_size9_def blob_back_def)
  have v: "valid ?E Any_vector ?p 4 = Inr False"
    by (simp add: Any_vector_valid_def Any_vector_el_count_def container_valid_def vec0_def blob0_def blob_size9_def blob_back_def
        env0_def)
  have e: "stl_iterator ?E Any_vector = stl_iterator_Any_vector"
    "begin_it Any_vector ?p = cursor0 0x1000" "STL_CNT_INVALID ?E = - 101"
    by (simp_all add: stl_iterator_def begin_it_def vec0_def blob0_def blob_size9_def blob_back_def env0_def)
  have d: "outs0 \<noteq> \<lparr>out_el_count = 9, out_el_iterator = Some stl_iterator_Any_vector,
                     out_it_mem = cursor0 0x1000\<rparr>"
    by (simp add: outs0_def)
  from get_container_info_writes_before_valid [OF s c v, where outs = outs0 and w = ?v] g m e d
  show ?thesis by simp
qed

section \<open>The validators\<close>

text \<open>
  C2: \<^verbatim>\<open>container_valid\<close> returns true exactly when the element count does not
  exceed \<open>2 ^ 24\<close> and the probe does not reject the address. So a count above
  \<open>2 ^ 24\<close> gives false whatever the address, and a rejected address gives false
  whatever the count.
\<close>

theorem container_valid_iff:
  "container_valid env front n =
     (\<not> 2 ^ 24 < unat n \<and> \<not> debug_is_bogus_pointer env front)"
  by (simp add: container_valid_def)

text \<open>
  C3: for an element size other than 0, the element count of the vector adapter is
  the reported size times 4 (the size of \<^verbatim>\<open>int\<close>), divided by the element size, in
  \<^verbatim>\<open>size_t\<close> arithmetic. Where the product does not wrap, that is the number
  \<open>size * 4 div el_size\<close>. (An element size of 0 is a division by zero.)
\<close>

theorem Any_vector_el_count_formula:
  fixes el_size :: "'a::len word"
  assumes "el_size \<noteq> 0"
  shows "el_count Any_vector p el_size = Inr (c_size (p std_vector) * 4 div el_size) \<and>
    (unat (c_size (p std_vector)) * 4 < 2 ^ LENGTH('a) \<longrightarrow>
       unat (c_size (p std_vector) * 4 div el_size)
         = unat (c_size (p std_vector)) * 4 div unat el_size)"
proof -
  let ?n = "c_size (p std_vector)"
  have a: "el_count Any_vector p el_size = Inr (?n * 4 div el_size)"
    using assms by (simp add: Any_vector_el_count_def)
  have b: "unat (?n * 4 div el_size) = unat ?n * 4 div unat el_size"
    if lt: "unat ?n * 4 < 2 ^ LENGTH('a)"
  proof -
    have "unat (?n * 4) = (unat ?n * unat (4 :: 'a word)) mod 2 ^ LENGTH('a)"
      by (simp add: unat_word_ariths)
    also have "\<dots> = (unat ?n * 4) mod 2 ^ LENGTH('a)"
      by (simp add: unat_of_nat mod_mult_right_eq unsigned_numeral take_bit_eq_mod)
    also have "\<dots> = unat ?n * 4" using lt by simp
    finally show ?thesis by (simp add: unat_div)
  qed
  show ?thesis using a b by blast
qed

theorem Any_vector_el_count_formula_witness:
  "(8 :: 32 word) \<noteq> 0 \<and> el_count Any_vector blob0 8 = Inr 2 \<and>
   unat (c_size (blob0 std_vector)) * 4 < 2 ^ 32 \<and>
   unat (c_size (blob0 std_vector) * 4 div 8) = 5 * 4 div 8"
proof -
  have n: "(8 :: 32 word) \<noteq> 0" by simp
  have s: "c_size (blob0 std_vector) = 5" by (simp add: vec0_def blob0_def)
  from Any_vector_el_count_formula [OF n, where p = blob0] n s show ?thesis by simp
qed

text \<open>
  C5: a vector whose reported size exceeds its reported capacity, or whose front
  address exceeds its back address, is never reported valid: for an element size
  other than 0 \<open>valid\<close> returns false (for an element size of 0 the count that
  \<open>valid\<close> computes first divides by zero).
\<close>

theorem Any_vector_valid_rejects:
  assumes "c_size (p std_vector) > c_capacity (p std_vector) \<or>
           c_front (p std_vector) > c_back (p std_vector)"
  shows "valid env Any_vector p el_size \<noteq> Inr True \<and>
         (el_size \<noteq> 0 \<longrightarrow> valid env Any_vector p el_size = Inr False)"
  using assms by (auto simp: Any_vector_valid_def Any_vector_el_count_def)

theorem Any_vector_valid_rejects_witness:
  "c_size (blob_size9 std_vector) > c_capacity (blob_size9 std_vector)
   \<and> valid (env0 False True) Any_vector blob_size9 4 = Inr False
   \<and> c_front (blob_back std_vector) > c_back (blob_back std_vector)
   \<and> valid (env0 False True) Any_vector blob_back 4 = Inr False"
proof -
  have a: "c_size (blob_size9 std_vector) > c_capacity (blob_size9 std_vector)"
    by (simp add: vec0_def blob0_def blob_size9_def blob_back_def)
  have b: "c_front (blob_back std_vector) > c_back (blob_back std_vector)"
    by (simp add: vec0_def blob0_def blob_size9_def blob_back_def)
  have n: "(4 :: 32 word) \<noteq> 0" by simp
  from Any_vector_valid_rejects
      [where p = blob_size9 and env = "env0 False True" and el_size = 4]
    Any_vector_valid_rejects
      [where p = blob_back and env = "env0 False True" and el_size = 4]
    a b n
  show ?thesis by simp
qed

section \<open>The aliases\<close>

text \<open>
  C9: the derived adapters inherit \<open>valid\<close>, \<open>el_count\<close> and \<open>begin\<close>, which are equal
  to those of their parents for every blob and element size. The step function is not
  inherited: under \<^verbatim>\<open>STL_DINKUMWARE != 0\<close> the deque and the map get their
  specialisations of \<^verbatim>\<open>stl_iterator\<close>, the queue, the stack and the multimap the
  primary template. On the deque of \<open>heap0\<close>, with the iterator at offset 2, the
  specialisation returns \<open>0x1008\<close> for elements of 4 bytes and \<open>0x2000\<close> for
  elements of 8 bytes. The step function of the queue returns the same address for
  both sizes, whatever the operators of the standard iterator are; so for one of the
  two element sizes it differs from the step function of the deque.
\<close>

theorem alias_step_function_differs:
  "valid env Any_queue p el = valid env Any_deque p el
   \<and> valid env Any_stack p el = valid env Any_deque p el
   \<and> valid env Any_multimap p el = valid env Any_map p el
   \<and> valid env Any_multiset p el = valid env Any_set p el
   \<and> el_count Any_queue p el = el_count Any_deque p el
   \<and> el_count Any_stack p el = el_count Any_deque p el
   \<and> el_count Any_multimap p el = el_count Any_map p el
   \<and> el_count Any_multiset p el = el_count Any_set p el
   \<and> begin_it Any_queue p = begin_it Any_deque p
   \<and> begin_it Any_stack p = begin_it Any_deque p
   \<and> begin_it Any_multimap p = begin_it Any_map p
   \<and> begin_it Any_multiset p = begin_it Any_set p
   \<and> stl_iterator (env0 g True) Any_deque = stl_iterator_Any_deque
   \<and> stl_iterator (env0 g True) Any_queue = stl_iterator_primary Any_queue
   \<and> stl_iterator (env0 g True) Any_stack = stl_iterator_primary Any_stack
   \<and> stl_iterator (env0 g True) Any_map = stl_iterator_Any_map
   \<and> stl_iterator (env0 g True) Any_multimap = stl_iterator_primary Any_multimap
   \<and> call_iterator (heap0 nd ni) (stl_iterator (env0 g True) Any_deque) deque_it0 4
       = Some (Inr (0x1008, ni std_deque deque_it0))
   \<and> call_iterator (heap0 nd ni) (stl_iterator (env0 g True) Any_deque) deque_it0 8
       = Some (Inr (0x2000, ni std_deque deque_it0))
   \<and> call_iterator (heap0 nd ni) (stl_iterator (env0 g True) Any_queue) deque_it0 4
       = call_iterator (heap0 nd ni) (stl_iterator (env0 g True) Any_queue) deque_it0 8"
  by (simp add: stl_iterator_def env0_def Any_deque_iter_deref_def get_item_def
      el_per_bucket_def heap0_def deque_it0_def begin_it_def)

section \<open>The tree iterator\<close>

lemma leftmost_tree:
  "tree_in_heap h el head par t \<Longrightarrow> Isnil h head el = Inr True \<Longrightarrow> t \<noteq> Leaf \<Longrightarrow>
   leftmost h el (root_ptr head t) = Some (Inr (hd (inorder t)))"
proof (induction t arbitrary: par)
  case Leaf
  then show ?case by simp
next
  case (Node l a r)
  show ?case
  proof (cases l)
    case Leaf
    with Node.prems show ?thesis
      by (subst leftmost.simps) simp
  next
    case (Node ll b lr)
    with Node.prems have nb: "Isnil h b el = Inr False" and lb: "Left h a = b" by auto
    have "leftmost h el (root_ptr head l) = Some (Inr (hd (inorder l)))"
      using Node.IH(1) [of a] Node.prems \<open>l = Node ll b lr\<close> by auto
    moreover have "hd (inorder (Node l a r)) = hd (inorder l)"
      using \<open>l = Node ll b lr\<close> by (simp add: hd_append)
    ultimately show ?thesis using nb lb \<open>l = Node ll b lr\<close>
      by (subst leftmost.simps) (simp del: inorder.simps)
  qed
qed

lemma climb_right_child:
  "Parent h x = a \<Longrightarrow> Isnil h a el = Inr False \<Longrightarrow> Right h a = x \<Longrightarrow>
   climb h el x = climb h el a"
  by (subst climb.simps) simp

lemma climb_left_child:
  "Parent h x = a \<Longrightarrow> Right h a \<noteq> x \<Longrightarrow> Isnil h a el = Inr v \<Longrightarrow>
   climb h el x = Some (Inr a)"
  by (subst climb.simps) auto

lemma climb_root:
  "Parent h x = head \<Longrightarrow> Isnil h head el = Inr True \<Longrightarrow> climb h el x = Some (Inr head)"
  by (subst climb.simps) auto

text \<open>
  Inside a subtree \<open>t\<close>, the step leads to the next node of \<open>t\<close> in order, and from
  the last node of \<open>t\<close> to where the climb from the root of \<open>t\<close> ends.
\<close>

lemma advance_tree:
  "tree_in_heap h el head par t \<Longrightarrow> Isnil h head el = Inr True \<Longrightarrow> distinct (inorder t) \<Longrightarrow>
   climb h el (root_ptr head t) = Some (Inr nxt) \<Longrightarrow> i < length (inorder t) \<Longrightarrow>
   Any_map_iter_advance h el (inorder t ! i) = Some (Inr ((inorder t @ [nxt]) ! Suc i))"
proof (induction t arbitrary: par nxt i)
  case Leaf
  then show ?case by simp
next
  case (Node l a r)
  have na: "Isnil h a el = Inr False" and La: "Left h a = root_ptr head l"
    and Ra: "Right h a = root_ptr head r" and Pa: "Parent h a = par"
    and tl: "tree_in_heap h el head a l" and tr: "tree_in_heap h el head a r"
    using Node.prems(1) by auto
  have dl: "distinct (inorder l)" and dr: "distinct (inorder r)"
    and lr: "set (inorder l) \<inter> set (inorder r) = {}"
    using Node.prems(3) by auto
  have ca: "climb h el a = Some (Inr nxt)" using Node.prems(4) by simp
  consider (left) "i < length (inorder l)" | (mid) "i = length (inorder l)"
    | (right) "i > length (inorder l)" by linarith
  then show ?case
  proof cases
    case left
    then obtain ll b lrr where l: "l = Node ll b lrr" by (cases l) auto
    have pb: "Parent h b = a" using tl l by simp
    have bl: "b \<in> set (inorder l)" using l by simp
    have "Isnil h b el = Inr False" using tl l by simp
    then have "b \<noteq> head" using Node.prems(2) by auto
    moreover have "b \<notin> set (inorder r)" using bl lr by auto
    ultimately have "Right h a \<noteq> b" using Ra by (cases r) auto
    then have "climb h el (root_ptr head l) = Some (Inr a)"
      using climb_left_child [OF pb _ na] l by simp
    from Node.IH(1) [OF tl Node.prems(2) dl this left]
    show ?thesis using left by (simp add: nth_append)
  next
    case mid
    have ia: "inorder (Node l a r) ! i = a" using mid by (simp add: nth_append)
    show ?thesis
    proof (cases r)
      case Leaf
      then have "Right h a = head" using Ra by simp
      then have "Any_map_iter_advance h el a = Some (Inr nxt)"
        using na Node.prems(2) ca by (simp add: Any_map_iter_advance_def)
      then show ?thesis using ia mid Leaf by (simp add: nth_append)
    next
      case (Node rl b rr)
      have nb: "Isnil h b el = Inr False" using tr Node by simp
      have "leftmost h el (root_ptr head r) = Some (Inr (hd (inorder r)))"
        using leftmost_tree [OF tr \<open>Isnil h head el = Inr True\<close>] Node by simp
      then have "Any_map_iter_advance h el a = Some (Inr (hd (inorder r)))"
        using na nb Ra Node by (simp add: Any_map_iter_advance_def)
      moreover have "inorder r \<noteq> []" using Node by simp
      ultimately show ?thesis using ia mid
        by (simp add: nth_append hd_conv_nth)
    qed
  next
    case right
    then obtain j where j: "i = length (inorder l) + Suc j" and jr: "j < length (inorder r)"
      using Node.prems(5) by (auto simp: less_iff_Suc_add)
    then obtain rl b rr where r: "r = Node rl b rr" by (cases r) auto
    have pb: "Parent h b = a" using tr r by simp
    have "climb h el (root_ptr head r) = Some (Inr nxt)"
      using climb_right_child [OF pb na] Ra r ca by simp
    from Node.IH(2) [OF tr Node.prems(2) dr this jr]
    show ?thesis using j jr by (simp add: nth_append)
  qed
qed

text \<open>
  C4: \<^verbatim>\<open>advance\<close> reads the end flag of the current node first and, where it is
  set, returns with the cursor unchanged, whatever the links of that node are. On a
  tree laid out in memory (\<open>map_in_heap\<close>), from the node at position \<open>i\<close> of the
  in-order sequence it returns, and moves the cursor to the node at position \<open>i + 1\<close>,
  or to the sentinel from the last node.
\<close>

theorem Any_map_iter_advance_successor:
  "(Isnil h p el_size = Inr True \<longrightarrow> Any_map_iter_advance h el_size p = Some (Inr p)) \<and>
   (map_in_heap h el_size head t \<longrightarrow>
      (\<forall>i < length (inorder t).
         Any_map_iter_advance h el_size (inorder t ! i)
           = Some (Inr ((inorder t @ [head]) ! Suc i))))"
proof (intro conjI impI allI)
  assume "Isnil h p el_size = Inr True"
  then show "Any_map_iter_advance h el_size p = Some (Inr p)"
    by (simp add: Any_map_iter_advance_def)
next
  fix i
  assume m: "map_in_heap h el_size head t" and i: "i < length (inorder t)"
  then have th: "tree_in_heap h el_size head head t" and nh: "Isnil h head el_size = Inr True"
    and d: "distinct (inorder t)" by (auto simp: map_in_heap_def)
  from i obtain l a r where t: "t = Node l a r" by (cases t) auto
  then have "Parent h a = head" using th by simp
  then have "climb h el_size (root_ptr head t) = Some (Inr head)"
    using climb_root nh t by simp
  from advance_tree [OF th nh d this i]
  show "Any_map_iter_advance h el_size (inorder t ! i)
          = Some (Inr ((inorder t @ [head]) ! Suc i))" .
qed

theorem Any_map_iter_advance_successor_witness:
  "Isnil heap1 0x100 16 = Inr True
   \<and> Any_map_iter_advance heap1 16 0x100 = Some (Inr 0x100)
   \<and> map_in_heap heap1 16 0x100 tree0
   \<and> inorder tree0 = [0x10, 0x20, 0x30]
   \<and> Any_map_iter_advance heap1 16 0x10 = Some (Inr 0x20)
   \<and> Any_map_iter_advance heap1 16 0x20 = Some (Inr 0x30)
   \<and> Any_map_iter_advance heap1 16 0x30 = Some (Inr 0x100)"
proof -
  let ?h = "heap1"
  have n: "Isnil ?h 0x100 16 = Inr True"
    by (simp add: Isnil_def heap1_def heap0_def)
  have m: "map_in_heap ?h 16 0x100 tree0"
    by (simp add: map_in_heap_def tree0_def Isnil_def heap1_def heap0_def)
  have o: "inorder tree0 = [0x10, 0x20, 0x30]"
    by (simp add: tree0_def)
  note t = Any_map_iter_advance_successor
    [where h = ?h and p = "0x100" and el_size = 16 and head = "0x100" and t = tree0]
  from t n have a: "Any_map_iter_advance ?h 16 0x100 = Some (Inr 0x100)" by blast
  from t m have s: "\<forall>i < length (inorder tree0).
      Any_map_iter_advance ?h 16 (inorder tree0 ! i)
        = Some (Inr ((inorder tree0 @ [0x100]) ! Suc i))" by blast
  have "Any_map_iter_advance ?h 16 0x10 = Some (Inr 0x20)"
    using s [rule_format, of 0] by (simp add: o)
  moreover have "Any_map_iter_advance ?h 16 0x20 = Some (Inr 0x30)"
    using s [rule_format, of 1] by (simp add: o)
  moreover have "Any_map_iter_advance ?h 16 0x30 = Some (Inr 0x100)"
    using s [rule_format, of 2] by (simp add: o)
  ultimately show ?thesis using n a m o by simp
qed

section \<open>The name simplifier\<close>

subsection \<open>The array stays terminated\<close>

text \<open>
  No rule stores at the last byte of the array, and the write pointer never passes
  the read pointer: a pattern that matches lies in front of the terminator, and what
  is stored is shorter than what was read. So the array ends with a terminator in
  every iteration, which is what \<open>strncmp0\<close> relies on, and in the result.
\<close>

lemma poke_last:
  "poke b d c = Inr b' \<Longrightarrow> d < int (length b) - 1 \<Longrightarrow> b' \<noteq> [] \<and> last b' = last b"
proof -
  assume p: "poke b d c = Inr b'" and d: "d < int (length b) - 1"
  then have b': "b' = b[nat d := c]" and n: "nat d < length b - 1" and ne: "b \<noteq> []"
    by (auto simp: poke_def split: if_splits)
  have "last (b[nat d := c]) = last b"
    using ne n by (simp add: last_list_update)
  then show ?thesis using b' ne by simp
qed

lemma strcpy_last:
  "strcpy b d w = Inr b' \<Longrightarrow> d + int (length w) < int (length b) - 1 \<Longrightarrow>
   b' \<noteq> [] \<and> last b' = last b"
proof (induction w arbitrary: b d)
  case Nil
  then show ?case using poke_last [of b d NUL b'] by simp
next
  case (Cons c cs)
  from Cons.prems(1) obtain b1 where p: "poke b d c = Inr b1" and s: "strcpy b1 (d + 1) cs = Inr b'"
    by (auto split: sum.splits)
  have l: "length b1 = length b" using p by (rule poke_length)
  have "b1 \<noteq> [] \<and> last b1 = last b" using p Cons.prems(2) by (intro poke_last) auto
  moreover have "b' \<noteq> [] \<and> last b' = last b1"
    using s Cons.prems(2) l by (intro Cons.IH) auto
  ultimately show ?case by simp
qed

lemma match_inside:
  assumes "strncmp0 st p" "NUL \<notin> set p" "p \<noteq> []" "buf st \<noteq> []" "last (buf st) = NUL"
  shows "src st + length p < length (buf st)"
proof (rule ccontr)
  assume n: "\<not> src st + length p < length (buf st)"
  have t: "take (length p) (drop (src st) (buf st)) = p" using assms(1) by (simp add: strncmp0_def)
  then have "length (take (length p) (drop (src st) (buf st))) = length p" by simp
  then have "length p \<le> length (buf st) - src st" by simp
  with n assms(3) have e: "src st + length p = length (buf st)" by (cases p) auto
  then have d: "drop (src st) (buf st) = p" using t by simp
  have "last (drop (src st) (buf st)) = last (buf st)"
    using e assms(3) by (intro last_drop) (cases p, auto)
  then have "last p = NUL" using d assms(5) by simp
  then show False using assms(2,3) by (metis last_in_set)
qed


lemma REPLACE_terminated:
  assumes "REPLACE st what w = Inr (Continue st')" "strncmp0 st what" "NUL \<notin> set what"
    "length w < length what" "terminated st"
  shows "terminated st'"
proof -
  from assms(1) obtain b where s: "strcpy (buf st) (dst st) w = Inr b"
    and st': "st' = st\<lparr>buf := b, src := src st + length what, dst := dst st + int (length w)\<rparr>"
    by (auto simp: REPLACE_def split: sum.splits)
  have ne: "what \<noteq> []" using assms(4) by auto
  have "src st + length what < length (buf st)"
    using assms(2,3,5) ne by (intro match_inside) (auto simp: terminated_def)
  then have "dst st + int (length w) < int (length (buf st)) - 1"
    using assms(4,5) by (auto simp: terminated_def)
  with s have "b \<noteq> [] \<and> last b = last (buf st)" by (rule strcpy_last)
  then show ?thesis using assms(4,5) st' by (auto simp: terminated_def)
qed

lemma STRIP_terminated:
  "STRIP st what = Inr (Continue st') \<Longrightarrow> terminated st \<Longrightarrow> terminated st'"
  by (auto simp: STRIP_def terminated_def)

lemma emit_terminated:
  assumes "emit st c = Inr (Continue st')" "buf st ! src st \<noteq> NUL"
    "src st < length (buf st)" "terminated st"
  shows "terminated st'"
proof -
  from assms(1) obtain b where p: "poke (buf st) (dst st) c = Inr b"
    and st': "st' = st\<lparr>buf := b, src := src st + 1, dst := dst st + 1\<rparr>"
    by (auto simp: emit_def split: sum.splits)
  have "src st \<noteq> length (buf st) - 1"
    using assms(2,4) by (auto simp: terminated_def last_conv_nth)
  then have "dst st < int (length (buf st)) - 1"
    using assms(3,4) by (auto simp: terminated_def)
  with p have "b \<noteq> [] \<and> last b = last (buf st)" by (rule poke_last)
  then show ?thesis using assms(4) st' by (auto simp: terminated_def)
qed

lemma strip_Node_terminated:
  assumes "strip_Node st = Inr (Continue st')" "strncmp0 st ''::_Node''" "terminated st"
  shows "terminated st'"
proof -
  have "src st + length ''::_Node'' < length (buf st)"
    using assms(2,3) by (intro match_inside) (auto simp: terminated_def NUL_def)
  then have d: "dst st < int (length (buf st)) - 1"
    using assms(3) by (auto simp: terminated_def)
  show ?thesis
    using assms(1,3) poke_last [OF _ d]
    by (auto simp: strip_Node_def terminated_def split: if_splits sum.splits)
qed

lemma strip_template_arg_terminated:
  "strip_template_arg st n = Inr (Continue st') \<Longrightarrow> terminated st \<Longrightarrow> terminated st'"
  by (auto simp: strip_template_arg_def terminated_def Let_def split: if_splits)

lemma discard_terminated:
  "discard st c = Inr (Continue st') \<Longrightarrow> terminated st \<Longrightarrow> terminated st'"
  by (auto simp: discard_def terminated_def split: if_splits)

lemma rules_terminated:
  assumes "rules st c = Inr (Continue st')" "buf st ! src st \<noteq> NUL"
    "src st < length (buf st)" "terminated st"
  shows "terminated st'"
  using assms unfolding rules_def
  by (auto simp: NUL_def split: if_splits
      elim: REPLACE_terminated STRIP_terminated emit_terminated strip_Node_terminated
        strip_template_arg_terminated)

lemma body_terminated:
  "body st = Inr (Continue st') \<Longrightarrow> src st < length (buf st) \<Longrightarrow> terminated st \<Longrightarrow>
   terminated st'"
  unfolding body_def Let_def
  by (auto split: if_splits sum.splits elim: rules_terminated discard_terminated)

lemma REPLACE_no_break: "REPLACE st what w \<noteq> Inr (Break b)"
  by (auto simp: REPLACE_def split: sum.splits)

lemma emit_no_break: "emit st c \<noteq> Inr (Break b)"
  by (auto simp: emit_def split: sum.splits)

lemma strip_Node_no_break: "strip_Node st \<noteq> Inr (Break b)"
  by (auto simp: strip_Node_def split: sum.splits)

lemma strip_template_arg_no_break: "strip_template_arg st n \<noteq> Inr (Break b)"
  by (auto simp: strip_template_arg_def Let_def)

lemma rules_no_break: "rules st c \<noteq> Inr (Break b)"
  unfolding rules_def
  by (simp add: REPLACE_no_break emit_no_break strip_Node_no_break
      strip_template_arg_no_break STRIP_def)

lemma loop_terminated: "terminated st \<Longrightarrow> loop st = Inr b \<Longrightarrow> b \<noteq> [] \<and> last b = NUL"
proof (induction st rule: loop.induct)
  case (1 st)
  from "1.prems"(2) have ib: "\<not> length (buf st) \<le> src st"
    by (subst (asm) loop.simps) (auto split: if_splits)
  show ?case
  proof (cases "body st")
    case (Inl e)
    with "1.prems"(2) ib show ?thesis by (subst (asm) loop.simps) simp
  next
    case (Inr f)
    show ?thesis
    proof (cases f)
      case (Continue st')
      have l: "loop st' = Inr b" using "1.prems"(2) ib Inr Continue
        by (subst (asm) loop.simps) simp
      have "terminated st'" using Inr Continue ib "1.prems"(1)
        by (intro body_terminated [of st st']) auto
      then show ?thesis using "1.IH" ib Inr Continue l by simp
    next
      case (Break b')
      then have bb: "b' = b" using "1.prems"(2) ib Inr
        by (subst (asm) loop.simps) simp
      have "poke (buf st) (dst st) NUL = Inr b"
        using Inr Break bb
        by (auto simp: body_def Let_def discard_def rules_no_break
            split: if_splits sum.splits)
      then have "b = (buf st)[nat (dst st) := NUL]" and "buf st \<noteq> []"
        by (auto simp: poke_def split: if_splits)
      then show ?thesis using "1.prems"(1)
        by (auto simp: terminated_def last_list_update)
    qed
  qed
qed

text \<open>
  The outcome of a run that stays inside the array: the array keeps its length and
  holds a terminator, so the string in it is no longer than the array allows.
\<close>

lemma loop_result: "loop st = Inr b \<Longrightarrow> length b = length (buf st) \<and> NUL \<in> set b"
proof (induction st rule: loop.induct)
  case (1 st)
  from "1.prems" have ib: "\<not> length (buf st) \<le> src st"
    by (subst (asm) loop.simps) (auto split: if_splits)
  show ?case
  proof (cases "body st")
    case (Inl e)
    with "1.prems" ib show ?thesis by (subst (asm) loop.simps) simp
  next
    case (Inr f)
    show ?thesis
    proof (cases f)
      case (Continue st')
      have "loop st' = Inr b" using "1.prems" ib Inr Continue
        by (subst (asm) loop.simps) simp
      then have "length b = length (buf st') \<and> NUL \<in> set b"
        using "1.IH" ib Inr Continue by simp
      then show ?thesis using body_progress Inr Continue by auto
    next
      case (Break b')
      then have bb: "b' = b" using "1.prems" ib Inr
        by (subst (asm) loop.simps) simp
      have "poke (buf st) (dst st) NUL = Inr b"
        using Inr Break bb
        by (auto simp: body_def Let_def discard_def rules_no_break
            split: if_splits sum.splits)
      then show ?thesis
        by (auto simp: poke_def set_update_memI split: if_splits)
    qed
  qed
qed

lemma stl_simplify_name_in_bounds:
  "stl_simplify_name s = Inr b \<Longrightarrow> length b = length s + 1 \<and> length (c_str b) \<le> length s"
proof -
  assume "stl_simplify_name s = Inr b"
  then have l: "length b = length s + 1" and n: "NUL \<in> set b"
    using loop_result [of "\<lparr>buf = s @ [NUL], src = 0, dst = 0, nesting = 0\<rparr>" b]
    by (simp_all add: stl_simplify_name_def)
  have "x \<in> set xs \<Longrightarrow> length (takeWhile (\<lambda>c. c \<noteq> x) xs) < length xs"
    for x :: char and xs
    by (induction xs) auto
  then have "length (takeWhile (\<lambda>c. c \<noteq> NUL) b) < length b"
    using n by simp
  then show ?thesis using l by (simp add: c_str_def)
qed

text \<open>
  C6 does not hold of the code. The branches for \<^verbatim>\<open>std::allocator<\<close> and
  \<^verbatim>\<open>std::less<\<close> move the read pointer by the length of the pattern and the
  pre-increment moves it once more, so the first character of the argument is
  skipped unexamined. In \<^verbatim>\<open>A<std::less<>,B<C> >\<close> that character is the closing
  bracket that matches \<^verbatim>\<open>std::less<\<close> (index 12): the iteration at index 2 leaves
  the read index at 13 with \<open>nesting = 1\<close>, the discard runs on to the last bracket
  of the name, and the result is \<^verbatim>\<open>A<\<close>.
\<close>

theorem discard_misses_matching_bracket:
  "body \<lparr>buf = ''A<std::less<>,B<C> >'' @ [NUL], src = 2, dst = 2, nesting = 0\<rparr>
     = Inr (Continue \<lparr>buf = ''A<std::less<>,B<C> >'' @ [NUL], src = 13, dst = 2, nesting = 1\<rparr>)
   \<and> simplified ''A<std::less<>,B<C> >'' = Inr ''A<''"
  by code_simp

subsection \<open>What the discard mode does\<close>

text \<open>
  In discard mode nothing is stored and the write pointer stays: from depth \<open>k\<close>
  the loop runs over a text \<open>w\<close> that does not close the depth, and leaves the mode
  at the bracket that follows.
\<close>

lemma discard_run:
  "scan k w = Some 1 \<Longrightarrow> 0 < k \<Longrightarrow> NUL \<notin> set w \<Longrightarrow>
   loop \<lparr>buf = pre @ w @ CHR ''>'' # rest, src = length pre, dst = d, nesting = k\<rparr>
   = loop \<lparr>buf = pre @ w @ CHR ''>'' # rest, src = length pre + length w + 1, dst = d,
           nesting = 0\<rparr>"
proof (induction w arbitrary: k pre)
  case Nil
  then have k: "k = 1" by simp
  show ?case unfolding k
    by (subst loop.simps) (simp add: body_def discard_def NUL_def nth_append)
next
  case (Cons c cs)
  define k' where "k' = (if c = CHR ''<'' then k + 1 else if c = CHR ''>'' then k - 1 else k)"
  have k0: "k' \<noteq> 0" and sc: "scan k' cs = Some 1"
    using Cons.prems(1) by (auto simp: k'_def Let_def split: if_splits)
  have kp: "0 < k'" using k0 Cons.prems(2) by (auto simp: k'_def split: if_splits)
  have c: "c \<noteq> NUL" and z: "NUL \<notin> set cs" using Cons.prems(3) by auto
  let ?b = "pre @ (c # cs) @ CHR ''>'' # rest"
  have "body \<lparr>buf = ?b, src = length pre, dst = d, nesting = k\<rparr>
        = Inr (Continue \<lparr>buf = ?b, src = length pre + 1, dst = d, nesting = k'\<rparr>)"
    using c Cons.prems(2) kp by (auto simp: body_def discard_def nth_append k'_def)
  then have "loop \<lparr>buf = ?b, src = length pre, dst = d, nesting = k\<rparr>
        = loop \<lparr>buf = ?b, src = length pre + 1, dst = d, nesting = k'\<rparr>"
    by (subst loop.simps) simp
  also have "\<dots> = loop \<lparr>buf = (pre @ [c]) @ cs @ CHR ''>'' # rest, src = length (pre @ [c]),
                        dst = d, nesting = k'\<rparr>" by simp
  also have "\<dots> = loop \<lparr>buf = (pre @ [c]) @ cs @ CHR ''>'' # rest,
                        src = length (pre @ [c]) + length cs + 1, dst = d, nesting = 0\<rparr>"
    using sc kp z by (rule Cons.IH)
  finally show ?case by simp
qed

lemma poke_error: "poke b d c = Inl e \<Longrightarrow> e = WriteOutOfBounds"
  by (auto simp: poke_def split: if_splits)

lemma strcpy_error: "strcpy b d w = Inl e \<Longrightarrow> e = WriteOutOfBounds"
  by (induction w arbitrary: b d) (auto split: sum.splits dest: poke_error)

lemma REPLACE_nesting:
  "REPLACE st what w = Inr (Continue st') \<Longrightarrow> nesting st' = nesting st"
  by (auto simp: REPLACE_def split: sum.splits)

lemma REPLACE_error: "REPLACE st what w = Inl e \<Longrightarrow> e = WriteOutOfBounds"
  by (auto simp: REPLACE_def split: sum.splits dest: strcpy_error)

lemma emit_nesting: "emit st c = Inr (Continue st') \<Longrightarrow> nesting st' = nesting st"
  by (auto simp: emit_def split: sum.splits)

lemma emit_error: "emit st c = Inl e \<Longrightarrow> e = WriteOutOfBounds"
  by (auto simp: emit_def split: sum.splits dest: poke_error)

lemma strip_Node_nesting: "strip_Node st = Inr (Continue st') \<Longrightarrow> nesting st' = nesting st"
  by (auto simp: strip_Node_def split: sum.splits if_splits)

lemma strip_Node_error: "strip_Node st = Inl e \<Longrightarrow> e = WriteOutOfBounds"
  by (auto simp: strip_Node_def split: sum.splits if_splits dest: poke_error)

lemma strip_template_arg_nesting:
  "strip_template_arg st n = Inr (Continue st') \<Longrightarrow> nesting st' = 1"
  by (auto simp: strip_template_arg_def Let_def split: if_splits)

lemma strip_template_arg_error: "nesting st = 0 \<Longrightarrow> strip_template_arg st n \<noteq> Inl e"
  by (auto simp: strip_template_arg_def Let_def)

lemma rules_nesting:
  "rules st c = Inr (Continue st') \<Longrightarrow> nesting st = 0 \<Longrightarrow> 0 \<le> nesting st'"
  unfolding rules_def
  by (auto simp: STRIP_def split: if_splits
      dest: REPLACE_nesting emit_nesting strip_Node_nesting strip_template_arg_nesting)

lemma rules_error: "rules st c = Inl e \<Longrightarrow> nesting st = 0 \<Longrightarrow> e = WriteOutOfBounds"
  unfolding rules_def
  by (auto simp: STRIP_def strip_template_arg_error split: if_splits
      dest: REPLACE_error emit_error strip_Node_error)

lemma discard_nesting:
  "discard st c = Inr (Continue st') \<Longrightarrow> 0 \<le> nesting st \<Longrightarrow> 0 \<le> nesting st'"
  by (auto simp: discard_def split: if_splits)

lemma discard_error: "0 \<le> nesting st \<Longrightarrow> nesting st \<noteq> 0 \<Longrightarrow> discard st c \<noteq> Inl e"
  by (auto simp: discard_def)

lemma body_nesting:
  "body st = Inr (Continue st') \<Longrightarrow> 0 \<le> nesting st \<Longrightarrow> 0 \<le> nesting st'"
  unfolding body_def Let_def
  by (auto split: if_splits sum.splits dest: rules_nesting discard_nesting)

lemma body_error: "body st = Inl e \<Longrightarrow> 0 \<le> nesting st \<Longrightarrow> e = WriteOutOfBounds"
  unfolding body_def Let_def
  by (auto simp: discard_error split: if_splits sum.splits dest: rules_error poke_error)

lemma loop_no_assert: "0 \<le> nesting st \<Longrightarrow> loop st \<noteq> Inl AssertFailed"
proof (induction st rule: loop.induct)
  case (1 st)
  show ?case
  proof (cases "length (buf st) \<le> src st")
    case True
    then show ?thesis by (subst loop.simps) simp
  next
    case False
    show ?thesis
    proof (cases "body st")
      case (Inl e)
      then have "e = WriteOutOfBounds" using "1.prems" by (rule body_error)
      then show ?thesis using False Inl by (subst loop.simps) simp
    next
      case (Inr f)
      show ?thesis
      proof (cases f)
        case (Continue st')
        have "0 \<le> nesting st'" using Inr Continue "1.prems" by (auto dest: body_nesting)
        then have "loop st' \<noteq> Inl AssertFailed" using "1.IH" False Inr Continue by simp
        then show ?thesis using False Inr Continue by (subst loop.simps) simp
      next
        case (Break b)
        then show ?thesis using False Inr by (subst loop.simps) simp
      qed
    qed
  qed
qed


lemma strncmp0_lit:
  "strncmp0 \<lparr>buf = pre @ r, src = length pre, dst = d, nesting = n\<rparr> p = starts r p"
  by (simp add: strncmp0_def starts_def)

lemma prev_char:
  "(length pre \<noteq> 0 \<and> (pre @ r) ! (length pre - 1) = c) = (pre \<noteq> [] \<and> last pre = c)"
  by (cases pre rule: rev_cases) (auto simp: nth_append)

lemma enter_allocator:
  "body \<lparr>buf = pre @ ''std::allocator<'' @ r, src = length pre, dst = d, nesting = 0\<rparr>
   = Inr (Continue \<lparr>buf = pre @ ''std::allocator<'' @ r, src = length pre + 16,
                    dst = (if pre \<noteq> [] \<and> last pre = CHR '','' then d - 1 else d),
                    nesting = 1\<rparr>)"
    (is "body ?st = _")
proof -
  have z: "strncmp0 ?st p = starts (''std::allocator<'' @ r) p" for p
    by (rule strncmp0_lit)
  have f1: "strncmp0 ?st ''::_Node'' = False" by (subst z) (simp add: starts_def)
  have f2: "strncmp0 ?st ''unsigned short'' = False" by (subst z) (simp add: starts_def)
  have f3: "strncmp0 ?st ''unsigned int'' = False" by (subst z) (simp add: starts_def)
  have f4: "strncmp0 ?st ''unsigned __int64'' = False" by (subst z) (simp add: starts_def)
  have f5: "strncmp0 ?st '',0> '' = False" by (subst z) (simp add: starts_def)
  have g1: "strncmp0 ?st ''std::_List_nod'' = False" by (subst z) (simp add: starts_def)
  have g2: "strncmp0 ?st ''std::_Tree_nod'' = False" by (subst z) (simp add: starts_def)
  have g3: "strncmp0 ?st ''std::basic_string<char,'' = False" by (subst z) (simp add: starts_def)
  have g4: "strncmp0 ?st ''std::basic_string<unsigned short,'' = False"
    by (subst z) (simp add: starts_def)
  have g5: "strncmp0 ?st ''std::char_traits<char>,'' = False" by (subst z) (simp add: starts_def)
  have g6: "strncmp0 ?st ''std::char_traits<unsigned short>,'' = False"
    by (subst z) (simp add: starts_def)
  have g7: "strncmp0 ?st ''std::_Tmap_traits'' = False" by (subst z) (simp add: starts_def)
  have g8: "strncmp0 ?st ''std::_Tset_traits'' = False" by (subst z) (simp add: starts_def)
  have g9: "strncmp0 ?st ''std::allocator<'' = True" by (subst z) (simp add: starts_def)
  have r: "rules ?st (CHR ''s'') = strip_template_arg ?st 15"
    unfolding rules_def
    by (simp only: f1 f2 f3 f4 f5 g1 g2 g3 g4 g5 g6 g7 g8 g9 if_False if_True not_not
        refl simp_thms)
  have c: "buf ?st ! src ?st = CHR ''s''" by (simp add: nth_append)
  have "strip_template_arg ?st 15 = Inr (Continue \<lparr>buf = pre @ ''std::allocator<'' @ r,
          src = length pre + 16,
          dst = (if pre \<noteq> [] \<and> last pre = CHR '','' then d - 1 else d), nesting = 1\<rparr>)"
    using prev_char [of pre "''std::allocator<'' @ r" "CHR '',''"]
    by (simp add: strip_template_arg_def Let_def del: append.simps)
  then show ?thesis using r c
    by (simp add: body_def Let_def NUL_def del: append.simps)
qed


lemma enter_less:
  "body \<lparr>buf = pre @ ''std::less<'' @ r, src = length pre, dst = d, nesting = 0\<rparr>
   = Inr (Continue \<lparr>buf = pre @ ''std::less<'' @ r, src = length pre + 11,
                    dst = (if pre \<noteq> [] \<and> last pre = CHR '','' then d - 1 else d),
                    nesting = 1\<rparr>)"
    (is "body ?st = _")
proof -
  have z: "strncmp0 ?st p = starts (''std::less<'' @ r) p" for p
    by (rule strncmp0_lit)
  have f1: "strncmp0 ?st ''::_Node'' = False" by (subst z) (simp add: starts_def)
  have f2: "strncmp0 ?st ''unsigned short'' = False" by (subst z) (simp add: starts_def)
  have f3: "strncmp0 ?st ''unsigned int'' = False" by (subst z) (simp add: starts_def)
  have f4: "strncmp0 ?st ''unsigned __int64'' = False" by (subst z) (simp add: starts_def)
  have f5: "strncmp0 ?st '',0> '' = False" by (subst z) (simp add: starts_def)
  have g1: "strncmp0 ?st ''std::_List_nod'' = False" by (subst z) (simp add: starts_def)
  have g2: "strncmp0 ?st ''std::_Tree_nod'' = False" by (subst z) (simp add: starts_def)
  have g3: "strncmp0 ?st ''std::basic_string<char,'' = False" by (subst z) (simp add: starts_def)
  have g4: "strncmp0 ?st ''std::basic_string<unsigned short,'' = False"
    by (subst z) (simp add: starts_def)
  have g5: "strncmp0 ?st ''std::char_traits<char>,'' = False" by (subst z) (simp add: starts_def)
  have g6: "strncmp0 ?st ''std::char_traits<unsigned short>,'' = False"
    by (subst z) (simp add: starts_def)
  have g7: "strncmp0 ?st ''std::_Tmap_traits'' = False" by (subst z) (simp add: starts_def)
  have g8: "strncmp0 ?st ''std::_Tset_traits'' = False" by (subst z) (simp add: starts_def)
  have g9: "strncmp0 ?st ''std::allocator<'' = False" by (subst z) (simp add: starts_def)
  have g10: "strncmp0 ?st ''std::less<'' = True" by (subst z) (simp add: starts_def)
  have r: "rules ?st (CHR ''s'') = strip_template_arg ?st 10"
    unfolding rules_def
    by (simp only: f1 f2 f3 f4 f5 g1 g2 g3 g4 g5 g6 g7 g8 g9 g10 if_False if_True not_not
        refl simp_thms)
  have c: "buf ?st ! src ?st = CHR ''s''" by (simp add: nth_append)
  have "strip_template_arg ?st 10 = Inr (Continue \<lparr>buf = pre @ ''std::less<'' @ r,
          src = length pre + 11,
          dst = (if pre \<noteq> [] \<and> last pre = CHR '','' then d - 1 else d), nesting = 1\<rparr>)"
    using prev_char [of pre "''std::less<'' @ r" "CHR '',''"]
    by (simp add: strip_template_arg_def Let_def del: append.simps)
  then show ?thesis using r c
    by (simp add: body_def Let_def NUL_def del: append.simps)
qed

lemma template_argument_discarded:
  assumes "pat = ''std::allocator<'' \<or> pat = ''std::less<''"
    and "scan 1 (c0 # w) = Some 1" and "c0 \<noteq> CHR ''<''" and "c0 \<noteq> CHR ''>''"
    and "NUL \<notin> set w"
  shows "loop \<lparr>buf = pre @ pat @ c0 # w @ CHR ''>'' # rest, src = length pre, dst = d,
               nesting = 0\<rparr>
       = loop \<lparr>buf = pre @ pat @ c0 # w @ CHR ''>'' # rest,
               src = length pre + length pat + length (c0 # w) + 1,
               dst = (if pre \<noteq> [] \<and> last pre = CHR '','' then d - 1 else d),
               nesting = 0\<rparr>"
proof -
  let ?b = "pre @ pat @ c0 # w @ CHR ''>'' # rest"
  let ?d = "if pre \<noteq> [] \<and> last pre = CHR '','' then d - 1 else d"
  have sc: "scan 1 w = Some 1" using assms(2-4) by (simp add: Let_def)
  have "body \<lparr>buf = ?b, src = length pre, dst = d, nesting = 0\<rparr>
        = Inr (Continue \<lparr>buf = ?b, src = length pre + length pat + 1, dst = ?d, nesting = 1\<rparr>)"
    using assms(1) enter_allocator [of pre "c0 # w @ CHR ''>'' # rest" d]
      enter_less [of pre "c0 # w @ CHR ''>'' # rest" d]
    by auto
  then have "loop \<lparr>buf = ?b, src = length pre, dst = d, nesting = 0\<rparr>
        = loop \<lparr>buf = ?b, src = length pre + length pat + 1, dst = ?d, nesting = 1\<rparr>"
    by (subst loop.simps) simp
  also have "\<dots> = loop \<lparr>buf = (pre @ pat @ [c0]) @ w @ CHR ''>'' # rest,
         src = length (pre @ pat @ [c0]), dst = ?d, nesting = 1\<rparr>" by simp
  also have "\<dots> = loop \<lparr>buf = (pre @ pat @ [c0]) @ w @ CHR ''>'' # rest,
         src = length (pre @ pat @ [c0]) + length w + 1, dst = ?d, nesting = 0\<rparr>"
    using sc assms(5) by (intro discard_run) simp_all
  finally show ?thesis by (simp add: add.assoc)
qed

text \<open>
  C7 does not hold of the code. The branch for \<^verbatim>\<open>::_Node\<close> moves the read pointer
  by 7 and the pre-increment moves it once more: at the end of a name the terminator
  is skipped and the next read is outside the string. In an array that holds only
  the name this is a read outside the array. In a larger array the loop goes on
  through the bytes behind the terminator: the string \<^verbatim>\<open>::_Node\<close> of length 7 is
  rewritten to a string of length 10, the last store three bytes behind the
  terminator of the input. The branches for \<^verbatim>\<open>std::allocator<\<close> and
  \<^verbatim>\<open>std::less<\<close> skip the terminator in the same way where a name ends with the
  pattern, as a name cut to the length of its buffer can. A comma removed by an
  earlier rule lets \<^verbatim>\<open>dst--\<close> move the write pointer in front of the array.
\<close>

theorem stl_simplify_name_leaves_string:
  "stl_simplify_name ''std::_List_nod<int,std::allocator<int> >::_Node'' = Inl ReadOutOfBounds
   \<and> c_str (''::_Node'' @ NUL # ''0123456789'' @ [NUL]) = ''::_Node''
   \<and> map_sum id c_str (stl_simplify_name (''::_Node'' @ NUL # ''0123456789''))
       = Inr ''0123456789''
   \<and> stl_simplify_name ''std::vector<int,std::allocator<'' = Inl ReadOutOfBounds
   \<and> stl_simplify_name ''std::char_traits<char>,std::less<int>'' = Inl WriteOutOfBounds"
  by code_simp

subsection \<open>Names without a rule\<close>

lemma take_app_NUL:
  assumes "NUL \<notin> set p"
  shows "(take (length p) (s @ NUL # r) = p) = (take (length p) s = p)"
proof (cases "length p \<le> length s")
  case True
  then show ?thesis by simp
next
  case False
  then have "take (length p) (s @ NUL # r) = s @ NUL # take (length p - Suc (length s)) r"
    by (simp add: take_Cons')
  moreover have "NUL \<in> set (s @ NUL # take (length p - Suc (length s)) r)" by simp
  then have "s @ NUL # take (length p - Suc (length s)) r \<noteq> p" using assms by metis
  moreover have "take (length p) s \<noteq> p" using False
    by (auto dest: arg_cong [where f = length])
  ultimately show ?thesis by simp
qed

lemma strncmp0_at:
  "NUL \<notin> set p \<Longrightarrow>
   strncmp0 \<lparr>buf = pre @ s @ NUL # r, src = length pre, dst = d, nesting = n\<rparr> p = starts s p"
  using take_app_NUL [of p s r] by (simp add: strncmp0_def starts_def)

lemma starts_append: "starts s (p @ q) \<Longrightarrow> starts s p"
proof -
  assume "starts s (p @ q)"
  then have "take (length p + length q) s = p @ q" by (simp add: starts_def)
  then have "take (length p) (take (length p + length q) s) = take (length p) (p @ q)" by simp
  then show ?thesis by (simp add: starts_def)
qed

lemma not_std:
  "\<not> starts s ''std::'' \<Longrightarrow>
   starts s (CHR ''s'' # CHR ''t'' # CHR ''d'' # CHR '':'' # CHR '':'' # q) = False"
  using starts_append [of s "''std::''" q] by auto

text \<open>Where no rule applies, the chain copies the character.\<close>

lemma rules_no_trigger:
  assumes "\<not> triggered s"
  shows "rules \<lparr>buf = pre @ s @ NUL # r, src = length pre, dst = d, nesting = n\<rparr> c =
         emit \<lparr>buf = pre @ s @ NUL # r, src = length pre, dst = d, nesting = n\<rparr> c"
    (is "rules ?st c = _")
proof -
  have n: "\<not> starts s ''::_Node''" "\<not> starts s ''unsigned short''" "\<not> starts s ''unsigned int''"
    "\<not> starts s ''unsigned __int64''" "\<not> starts s '',0> ''" "\<not> starts s ''std::''"
    using assms by (simp_all add: triggered_def)
  have z: "strncmp0 ?st p = starts s p" if "NUL \<notin> set p" for p
    using that by (rule strncmp0_at)
  have s: "starts s (CHR ''s'' # CHR ''t'' # CHR ''d'' # CHR '':'' # CHR '':'' # q) = False" for q
    using n(6) by (rule not_std)
  have f1: "strncmp0 ?st ''::_Node'' = False" using n(1) by (subst z) (simp_all add: NUL_def)
  have f2: "strncmp0 ?st ''unsigned short'' = False" using n(2) by (subst z) (simp_all add: NUL_def)
  have f3: "strncmp0 ?st ''unsigned int'' = False" using n(3) by (subst z) (simp_all add: NUL_def)
  have f4: "strncmp0 ?st ''unsigned __int64'' = False"
    using n(4) by (subst z) (simp_all add: NUL_def)
  have f5: "strncmp0 ?st '',0> '' = False" using n(5) by (subst z) (simp_all add: NUL_def)
  have g1: "strncmp0 ?st ''std::_List_nod'' = False" by (subst z) (simp_all add: NUL_def s)
  have g2: "strncmp0 ?st ''std::_Tree_nod'' = False" by (subst z) (simp_all add: NUL_def s)
  have g3: "strncmp0 ?st ''std::basic_string<char,'' = False"
    by (subst z) (simp_all add: NUL_def s)
  have g4: "strncmp0 ?st ''std::basic_string<unsigned short,'' = False"
    by (subst z) (simp_all add: NUL_def s)
  have g5: "strncmp0 ?st ''std::char_traits<char>,'' = False"
    by (subst z) (simp_all add: NUL_def s)
  have g6: "strncmp0 ?st ''std::char_traits<unsigned short>,'' = False"
    by (subst z) (simp_all add: NUL_def s)
  have g7: "strncmp0 ?st ''std::_Tmap_traits'' = False" by (subst z) (simp_all add: NUL_def s)
  have g8: "strncmp0 ?st ''std::_Tset_traits'' = False" by (subst z) (simp_all add: NUL_def s)
  have g9: "strncmp0 ?st ''std::allocator<'' = False" by (subst z) (simp_all add: NUL_def s)
  have g10: "strncmp0 ?st ''std::less<'' = False" by (subst z) (simp_all add: NUL_def s)
  have g11: "strncmp0 ?st ''std::'' = False" using n(6) by (subst z) (simp_all add: NUL_def)
  show ?thesis
    unfolding rules_def
    by (simp only: f1 f2 f3 f4 f5 g1 g2 g3 g4 g5 g6 g7 g8 g9 g10 g11 if_False if_cancel)
qed

text \<open>
  On a string without a trigger the loop stores every character where it read it,
  and the terminator over the terminator: the array is as it was.
\<close>

lemma loop_no_trigger:
  "\<not> has_trigger t \<Longrightarrow> NUL \<notin> set t \<Longrightarrow>
   loop \<lparr>buf = pre @ t @ NUL # r, src = length pre, dst = int (length pre), nesting = 0\<rparr>
     = Inr (pre @ t @ NUL # r)"
proof (induction t arbitrary: pre)
  case Nil
  show ?case
    by (subst loop.simps) (simp add: body_def poke_def nth_append list_update_append)
next
  case (Cons c cs)
  let ?st = "\<lparr>buf = pre @ (c # cs) @ NUL # r, src = length pre, dst = int (length pre),
              nesting = 0\<rparr>"
  let ?st' = "\<lparr>buf = (pre @ [c]) @ cs @ NUL # r, src = length (pre @ [c]),
               dst = int (length (pre @ [c])), nesting = 0\<rparr>"
  have c: "c \<noteq> NUL" and nt: "\<not> triggered (c # cs)" using Cons.prems by auto
  have "rules ?st c = emit ?st c" using nt by (rule rules_no_trigger)
  moreover have "emit ?st c = Inr (Continue ?st')"
    by (simp add: emit_def poke_def list_update_append)
  ultimately have "body ?st = Inr (Continue ?st')"
    using c by (simp add: body_def nth_append)
  moreover have "loop ?st' = Inr ((pre @ [c]) @ cs @ NUL # r)"
    using Cons.prems by (intro Cons.IH) auto
  ultimately show ?case
    by (subst loop.simps) simp
qed

lemma c_str_app: "NUL \<notin> set t \<Longrightarrow> c_str (t @ NUL # r) = t"
proof -
  assume "NUL \<notin> set t"
  then have "\<And>x. x \<in> set t \<Longrightarrow> x \<noteq> NUL" by auto
  then show ?thesis by (simp add: c_str_def takeWhile_tail)
qed

lemma c_str_split: "NUL \<in> set b \<Longrightarrow> \<exists>r. b = c_str b @ NUL # r"
proof -
  assume "NUL \<in> set b"
  then have "dropWhile (\<lambda>c. c \<noteq> NUL) b \<noteq> []" by (auto simp: dropWhile_eq_Nil_conv)
  then obtain x r where d: "dropWhile (\<lambda>c. c \<noteq> NUL) b = x # r"
    by (cases "dropWhile (\<lambda>c. c \<noteq> NUL) b") auto
  then have "x = NUL" using hd_dropWhile [of "\<lambda>c. c \<noteq> NUL" b] by auto
  then have "b = c_str b @ NUL # r"
    using d takeWhile_dropWhile_id [of "\<lambda>c. c \<noteq> NUL" b] by (simp add: c_str_def)
  then show ?thesis ..
qed

lemma c_str_no_NUL: "NUL \<notin> set (c_str b)"
  by (auto simp: c_str_def dest: set_takeWhileD)

lemma array_no_trigger:
  assumes "NUL \<in> set a" "\<not> has_trigger (c_str a)"
  shows "loop \<lparr>buf = a, src = 0, dst = 0, nesting = 0\<rparr> = Inr a"
proof -
  from assms(1) obtain r where a: "a = c_str a @ NUL # r" using c_str_split by blast
  have "loop \<lparr>buf = [] @ c_str a @ NUL # r, src = length ([] :: char list),
              dst = int (length ([] :: char list)), nesting = 0\<rparr>
        = Inr ([] @ c_str a @ NUL # r)"
    using assms(2) c_str_no_NUL by (rule loop_no_trigger)
  then show ?thesis using a by simp
qed

text \<open>A string without a trigger that the simplifier left is left as it is.\<close>

lemma trigger_free_fixed_point:
  assumes "stl_simplify_name m = Inr b" "\<not> has_trigger (c_str b)"
  shows "stl_simplify_name (butlast b) = Inr b \<and> simplified (c_str b) = Inr (c_str b)"
proof -
  have "terminated \<lparr>buf = m @ [NUL], src = 0, dst = 0, nesting = 0\<rparr>"
    by (simp add: terminated_def)
  then have t: "b \<noteq> [] \<and> last b = NUL"
    using assms(1) unfolding stl_simplify_name_def by (rule loop_terminated)
  then have n: "NUL \<in> set b" by (metis last_in_set)
  have bl: "butlast b @ [NUL] = b" using t by (metis append_butlast_last_id)
  have 1: "stl_simplify_name (butlast b) = Inr b"
    using array_no_trigger [OF n assms(2)] bl by (simp add: stl_simplify_name_def)
  have "NUL \<in> set (c_str b @ [NUL])" by simp
  moreover have cc: "c_str (c_str b @ [NUL]) = c_str b"
    using c_str_no_NUL [of b] by (intro c_str_app)
  ultimately have "loop \<lparr>buf = c_str b @ [NUL], src = 0, dst = 0, nesting = 0\<rparr>
      = Inr (c_str b @ [NUL])"
    using assms(2) by (intro array_no_trigger) simp_all
  then have 2: "simplified (c_str b) = Inr (c_str b)"
    using cc by (simp add: simplified_def stl_simplify_name_def)
  from 1 2 show ?thesis ..
qed

subsection \<open>Strings that start a rule, across a cut\<close>

lemma starts_iff: "starts s t = (\<exists>v. s = t @ v)"
proof
  assume "starts s t"
  then have "s = t @ drop (length t) s" by (metis append_take_drop_id starts_def)
  then show "\<exists>v. s = t @ v" ..
next
  assume "\<exists>v. s = t @ v"
  then show "starts s t" by (auto simp: starts_def)
qed

lemma triggered_iff: "triggered s = (\<exists>t \<in> set triggers. starts s t)"
  by (simp add: triggered_def triggers_def)

lemma has_trigger_iff: "has_trigger s = (\<exists>u t v. t \<in> set triggers \<and> s = u @ t @ v)"
proof (induction s)
  case Nil
  show ?case by (auto simp: triggers_def)
next
  case (Cons c cs)
  show ?case
  proof
    assume "has_trigger (c # cs)"
    then consider "triggered (c # cs)" | "has_trigger cs" by auto
    then show "\<exists>u t v. t \<in> set triggers \<and> c # cs = u @ t @ v"
    proof cases
      case 1
      then obtain t v where "t \<in> set triggers" "c # cs = t @ v"
        by (auto simp: triggered_iff starts_iff)
      then have "t \<in> set triggers \<and> c # cs = [] @ t @ v" by simp
      then show ?thesis by blast
    next
      case 2
      then obtain u t v where "t \<in> set triggers" "cs = u @ t @ v" using Cons.IH by auto
      then have "t \<in> set triggers \<and> c # cs = (c # u) @ t @ v" by simp
      then show ?thesis by blast
    qed
  next
    assume "\<exists>u t v. t \<in> set triggers \<and> c # cs = u @ t @ v"
    then obtain u t v where t: "t \<in> set triggers" and e: "c # cs = u @ t @ v" by auto
    show "has_trigger (c # cs)"
    proof (cases u)
      case Nil
      then have "starts (c # cs) t" using e by (auto simp: starts_iff)
      then show ?thesis using t by (auto simp: triggered_iff)
    next
      case (Cons d u')
      then have "cs = u' @ t @ v" using e by simp
      then have "has_trigger cs" using t Cons.IH by auto
      then show ?thesis by simp
    qed
  qed
qed

lemma joins_iff:
  "joins a b = (\<exists>x y u v. x \<noteq> [] \<and> y \<noteq> [] \<and> x @ y \<in> set triggers \<and> a = u @ x \<and> b = y @ v)"
proof
  assume "joins a b"
  then obtain t k where t: "t \<in> set triggers" and k: "1 \<le> k" "k < length t" "k \<le> length a"
    and a: "drop (length a - k) a = take k t" and b: "take (length t - k) b = drop k t"
    by (auto simp: joins_def list_ex_iff)
  have "take k t \<noteq> []" "drop k t \<noteq> []" using k by auto
  moreover have "take k t @ drop k t \<in> set triggers" using t by simp
  moreover have "a = take (length a - k) a @ take k t" using a by (metis append_take_drop_id)
  moreover have "b = drop k t @ drop (length t - k) b" using b by (metis append_take_drop_id)
  ultimately show "\<exists>x y u v. x \<noteq> [] \<and> y \<noteq> [] \<and> x @ y \<in> set triggers \<and> a = u @ x \<and> b = y @ v"
    by blast
next
  assume "\<exists>x y u v. x \<noteq> [] \<and> y \<noteq> [] \<and> x @ y \<in> set triggers \<and> a = u @ x \<and> b = y @ v"
  then obtain x y u v where x: "x \<noteq> []" and y: "y \<noteq> []" and t: "x @ y \<in> set triggers"
    and a: "a = u @ x" and b: "b = y @ v" by auto
  let ?k = "length x"
  have "0 < length x" "0 < length y" using x y by auto
  then have "1 \<le> length x \<and> length x < length (x @ y)" by (simp add: Suc_le_eq)
  then have "?k \<in> set [1..<length (x @ y)]" by (simp del: length_append One_nat_def)
  moreover have "?k \<le> length a \<and> drop (length a - ?k) a = take ?k (x @ y) \<and>
                 take (length (x @ y) - ?k) b = drop ?k (x @ y)"
    using a b by simp
  ultimately show "joins a b" using t unfolding joins_def list_ex_iff by blast
qed

lemma has_trigger_append:
  assumes "has_trigger (a @ b)"
  shows "has_trigger a \<or> has_trigger b \<or> joins a b"
proof -
  from assms obtain u t v where t: "t \<in> set triggers" and e: "a @ b = u @ t @ v"
    by (auto simp: has_trigger_iff)
  from e consider (1) w where "a = u @ w" "w @ b = t @ v" | (2) w where "a @ w = u" "b = w @ t @ v"
    by (auto simp: append_eq_append_conv2)
  then show ?thesis
  proof cases
    case 1
    from 1(2) have "(\<exists>z. w = t @ z) \<or> (\<exists>z. w @ z = t \<and> b = z @ v)"
      by (auto simp: append_eq_append_conv2)
    then consider (a) z where "w = t @ z" | (b) z where "w @ z = t" "b = z @ v" "z \<noteq> []"
      by (metis append.right_neutral)
    then show ?thesis
    proof cases
      case a
      then have "a = u @ t @ z" using 1 by simp
      then have "has_trigger a" using t has_trigger_iff by blast
      then show ?thesis by simp
    next
      case b
      show ?thesis
      proof (cases "w = []")
        case True
        then have "b = t @ v" using b by simp
        then have "b = [] @ t @ v" by simp
        then show ?thesis using t has_trigger_iff by blast
      next
        case False
        then show ?thesis using b 1 t unfolding joins_iff by blast
      qed
    qed
  next
    case 2
    then show ?thesis using t has_trigger_iff by blast
  qed
qed

lemma has_trigger_butlast: "has_trigger (butlast a) \<Longrightarrow> has_trigger a"
proof -
  assume h: "has_trigger (butlast a)"
  then obtain u t v where t: "t \<in> set triggers" and e: "butlast a = u @ t @ v"
    by (auto simp: has_trigger_iff)
  have "a \<noteq> []" using h by auto
  then have "a = u @ t @ (v @ [last a])" using e by (metis append_butlast_last_id append.assoc)
  then show ?thesis using t has_trigger_iff by blast
qed

lemma copy_keeps:
  assumes "\<not> has_trigger acc" "\<not> joins acc (c # cs)" "\<not> triggered (c # cs)"
  shows "\<not> has_trigger (acc @ [c])" "\<not> joins (acc @ [c]) cs"
proof -
  show "\<not> joins (acc @ [c]) cs"
  proof
    assume "joins (acc @ [c]) cs"
    then obtain x y u v where x: "x \<noteq> []" and y: "y \<noteq> []" and t: "x @ y \<in> set triggers"
      and a: "acc @ [c] = u @ x" and b: "cs = y @ v" by (auto simp: joins_iff)
    from x a have xc: "x = butlast x @ [c]" and ac: "acc = u @ butlast x"
      by (metis append_butlast_last_id last_appendR last_snoc,
          metis append_butlast_last_id butlast_append butlast_snoc x)
    show False
    proof (cases "butlast x = []")
      case True
      then have "c # cs = (x @ y) @ v" using xc b by simp
      then have "starts (c # cs) (x @ y)" by (auto simp: starts_iff)
      then show False using t assms(3) by (auto simp: triggered_iff)
    next
      case False
      have "butlast x @ (c # y) \<in> set triggers" using t xc by (metis append.assoc append_Cons append_Nil)
      moreover have "c # cs = (c # y) @ v" using b by simp
      ultimately have "joins acc (c # cs)" using False ac unfolding joins_iff by blast
      then show False using assms(2) by simp
    qed
  qed
  show "\<not> has_trigger (acc @ [c])"
  proof
    assume "has_trigger (acc @ [c])"
    then consider "has_trigger acc" | "has_trigger [c]" | "joins acc [c]"
      using has_trigger_append by blast
    then show False
    proof cases
      case 1
      then show ?thesis using assms(1) by simp
    next
      case 2
      then show ?thesis by (auto simp: triggered_def starts_def)
    next
      case 3
      then obtain x y u v where x: "x \<noteq> []" and y: "y \<noteq> []" and t: "x @ y \<in> set triggers"
        and a: "acc = u @ x" and b: "[c] = y @ v" by (auto simp: joins_iff)
      from b y have "y = [c]" by (cases y) auto
      then have "c # cs = y @ cs" by simp
      then have "joins acc (c # cs)" using x y t a unfolding joins_iff by blast
      then show ?thesis using assms(2) by simp
    qed
  qed
qed

lemma classify_Copy: "classify s = Copy \<Longrightarrow> s \<noteq> [] \<Longrightarrow> \<not> triggered s"
proof -
  assume c: "classify s = Copy" and n: "s \<noteq> []"
  have "hd s \<noteq> CHR ''s'' \<Longrightarrow> \<not> starts s ''std::''"
    using n by (cases s) (auto simp: starts_def)
  then show ?thesis using c
    by (auto simp: classify_def triggered_def split: if_splits)
qed

subsection \<open>One rule at a time\<close>

text \<open>
  In a state \<open>rep st acc p rest\<close> the comparisons of the chain see \<open>rest\<close>, and the
  chain takes the rule \<open>classify rest\<close>.
\<close>

lemma drop_nth: "drop n xs = r @ t \<Longrightarrow> i < length r \<Longrightarrow> xs ! (n + i) = r ! i"
proof -
  assume d: "drop n xs = r @ t" and i: "i < length r"
  have "length (drop n xs) = length r + length t" using d by simp
  then have "n + i < length xs" using i by simp
  then have "xs ! (n + i) = drop n xs ! i" by simp
  then show ?thesis using d i by (simp add: nth_append)
qed

lemma drop_more: "drop n xs = r @ t \<Longrightarrow> k \<le> length r \<Longrightarrow> drop (n + k) xs = drop k r @ t"
proof -
  assume d: "drop n xs = r @ t" and k: "k \<le> length r"
  have "drop (n + k) xs = drop k (drop n xs)" by (simp add: add.commute)
  then show ?thesis using d k by simp
qed

lemma rep_bound: "rep st acc p rest \<Longrightarrow> src st + length rest < length (buf st)"
proof -
  assume "rep st acc p rest"
  then obtain junk where "drop (src st) (buf st) = rest @ NUL # junk" by (auto simp: rep_def)
  then have "length (drop (src st) (buf st)) = length rest + 1 + length junk" by simp
  then show ?thesis by simp
qed

lemma rep_nth: "rep st acc p rest \<Longrightarrow> i < length rest \<Longrightarrow> buf st ! (src st + i) = rest ! i"
  by (auto simp: rep_def dest: drop_nth)

lemma strncmp0_rep:
  assumes "rep st acc p rest" "NUL \<notin> set q"
  shows "strncmp0 st q = starts rest q"
proof -
  from assms(1) obtain junk where "drop (src st) (buf st) = rest @ NUL # junk"
    by (auto simp: rep_def)
  then show ?thesis using take_app_NUL [OF assms(2), of rest junk]
    by (simp add: strncmp0_def starts_def)
qed

lemma loop_end:
  assumes "rep st acc p []"
  shows "\<exists>b. loop st = Inr b \<and> c_str b = acc"
proof -
  from assms obtain junk where d: "drop (src st) (buf st) = NUL # junk" by (auto simp: rep_def)
  have l: "src st < length (buf st)" using rep_bound [OF assms] by simp
  have n: "buf st ! src st = NUL" using d by (rule nth_via_drop)
  have a: "dst st = int (length acc)" "length acc \<le> src st" "take (length acc) (buf st) = acc"
    "NUL \<notin> set acc"
    using assms by (auto simp: rep_def)
  let ?b = "(buf st)[length acc := NUL]"
  have "body st = Inr (Break ?b)" using n a l by (simp add: body_def poke_def)
  then have "loop st = Inr ?b" using l by (subst loop.simps) simp
  moreover have "?b = acc @ NUL # drop (Suc (length acc)) (buf st)"
    using a l by (simp add: upd_conv_take_nth_drop)
  then have "c_str ?b = acc" using a(4) by (simp add: c_str_app)
  ultimately show ?thesis by blast
qed

lemma rules_chain:
  fixes a1 a2 a3 a4 a5 a6 a7 a8 a9 a10 a11 a12 a13 a14 a15 a16 a17 :: bool
  shows "(if a1 then strip_Node st
      else if a2 then REPLACE st w2 v2
      else if a3 then REPLACE st w3 v3
      else if a4 then REPLACE st w4 v4
      else if a5 then STRIP st w5
      else if a6 then emit st c
      else if a7 then REPLACE st w7 v7
      else if a8 then REPLACE st w8 v8
      else if a9 then REPLACE st w9 v9
      else if a10 then REPLACE st w10 v10
      else if a11 then STRIP st w11
      else if a12 then STRIP st w12
      else if a13 then STRIP st w13
      else if a14 then STRIP st w14
      else if a15 then strip_template_arg st n15
      else if a16 then strip_template_arg st n16
      else if a17 then STRIP st w17
      else emit st c) =
     (case (if a1 then StripNode
           else if a2 then Repl w2 v2
           else if a3 then Repl w3 v3
           else if a4 then Repl w4 v4
           else if a5 then Strip w5
           else if a6 then Copy
           else if a7 then Repl w7 v7
           else if a8 then Repl w8 v8
           else if a9 then Repl w9 v9
           else if a10 then Repl w10 v10
           else if a11 then Strip w11
           else if a12 then Strip w12
           else if a13 then Strip w13
           else if a14 then Strip w14
           else if a15 then Arg n15
           else if a16 then Arg n16
           else if a17 then Strip w17
           else Copy) of
        Copy \<Rightarrow> emit st c
      | StripNode \<Rightarrow> strip_Node st
      | Repl what w \<Rightarrow> REPLACE st what w
      | Strip what \<Rightarrow> STRIP st what
      | Arg n \<Rightarrow> strip_template_arg st n)"
  by simp

lemma rules_classify:
  assumes "rep st acc p (c # cs)"
  shows "rules st c =
     (case classify (c # cs) of
        Copy \<Rightarrow> emit st c
      | StripNode \<Rightarrow> strip_Node st
      | Repl what w \<Rightarrow> REPLACE st what w
      | Strip what \<Rightarrow> STRIP st what
      | Arg n \<Rightarrow> strip_template_arg st n)"
proof -
  have z: "strncmp0 st q = starts (c # cs) q" if "NUL \<notin> set q" for q
    using assms that by (rule strncmp0_rep)
  have z1: "strncmp0 st ''::_Node'' = starts (c # cs) ''::_Node''"
    by (rule z) (simp add: NUL_def)
  have z2: "strncmp0 st ''unsigned short'' = starts (c # cs) ''unsigned short''"
    by (rule z) (simp add: NUL_def)
  have z3: "strncmp0 st ''unsigned int'' = starts (c # cs) ''unsigned int''"
    by (rule z) (simp add: NUL_def)
  have z4: "strncmp0 st ''unsigned __int64'' = starts (c # cs) ''unsigned __int64''"
    by (rule z) (simp add: NUL_def)
  have z5: "strncmp0 st '',0> '' = starts (c # cs) '',0> ''"
    by (rule z) (simp add: NUL_def)
  have z6: "strncmp0 st ''std::_List_nod'' = starts (c # cs) ''std::_List_nod''"
    by (rule z) (simp add: NUL_def)
  have z7: "strncmp0 st ''std::_Tree_nod'' = starts (c # cs) ''std::_Tree_nod''"
    by (rule z) (simp add: NUL_def)
  have z8: "strncmp0 st ''std::basic_string<char,'' = starts (c # cs) ''std::basic_string<char,''"
    by (rule z) (simp add: NUL_def)
  have z9: "strncmp0 st ''std::basic_string<unsigned short,''
            = starts (c # cs) ''std::basic_string<unsigned short,''"
    by (rule z) (simp add: NUL_def)
  have z10: "strncmp0 st ''std::char_traits<char>,'' = starts (c # cs) ''std::char_traits<char>,''"
    by (rule z) (simp add: NUL_def)
  have z11: "strncmp0 st ''std::char_traits<unsigned short>,''
             = starts (c # cs) ''std::char_traits<unsigned short>,''"
    by (rule z) (simp add: NUL_def)
  have z12: "strncmp0 st ''std::_Tmap_traits'' = starts (c # cs) ''std::_Tmap_traits''"
    by (rule z) (simp add: NUL_def)
  have z13: "strncmp0 st ''std::_Tset_traits'' = starts (c # cs) ''std::_Tset_traits''"
    by (rule z) (simp add: NUL_def)
  have z14: "strncmp0 st ''std::allocator<'' = starts (c # cs) ''std::allocator<''"
    by (rule z) (simp add: NUL_def)
  have z15: "strncmp0 st ''std::less<'' = starts (c # cs) ''std::less<''"
    by (rule z) (simp add: NUL_def)
  have z16: "strncmp0 st ''std::'' = starts (c # cs) ''std::''"
    by (rule z) (simp add: NUL_def)
  have h: "hd (c # cs) = c" by simp
  show ?thesis
    unfolding rules_def classify_def h z1 z2 z3 z4 z5 z6 z7 z8 z9 z10 z11 z12 z13 z14 z15 z16
    by (rule rules_chain)
qed

lemma starts_length: "starts s q \<Longrightarrow> length q \<le> length s"
proof -
  assume "starts s q"
  then have "length (take (length q) s) = length q" by (simp add: starts_def)
  then show ?thesis by simp
qed

lemma starts_nth: "starts s q \<Longrightarrow> i < length q \<Longrightarrow> s ! i = q ! i"
proof -
  assume s: "starts s q" and i: "i < length q"
  have "take (length q) s ! i = s ! i" using i by simp
  then show ?thesis using s by (simp add: starts_def)
qed

lemma classify_Strip: "classify s = Strip what \<Longrightarrow> starts s what \<and> what \<noteq> []"
  by (auto simp: classify_def split: if_splits)


lemma classify_Repl_cases:
  "classify s = Repl what w \<Longrightarrow> starts s what \<and> (what, w) \<in> set replacements"
  by (auto simp: classify_def replacements_def split: if_splits)

lemma replacements_facts:
  "(what, w) \<in> set replacements \<Longrightarrow>
   length w + 2 \<le> length what \<and> \<not> has_trigger w \<and> NUL \<notin> set w"
  by (auto simp: replacements_def triggered_def starts_def NUL_def)

lemma classify_Repl:
  "classify s = Repl what w \<Longrightarrow>
   starts s what \<and> length w + 2 \<le> length what \<and> \<not> has_trigger w \<and> NUL \<notin> set w"
  using classify_Repl_cases replacements_facts by blast

lemma body_rules:
  assumes "rep st acc p (c # cs)"
  shows "body st = rules st c"
proof -
  have "buf st ! (src st + 0) = (c # cs) ! 0" using assms by (rule rep_nth) simp
  moreover have "c \<noteq> NUL" "nesting st = 0" using assms by (auto simp: rep_def)
  ultimately show ?thesis by (simp add: body_def)
qed

lemma loop_step:
  assumes "rep st acc p rest" "body st = Inr (Continue st')"
  shows "loop st = loop st'"
proof -
  have "src st < length (buf st)" using rep_bound [OF assms(1)] by simp
  then show ?thesis using assms(2) by (subst loop.simps) simp
qed

lemma step_copy:
  assumes r: "rep st acc p (c # cs)" and k: "classify (c # cs) = Copy"
  shows "\<exists>st'. loop st = loop st' \<and> rep st' (acc @ [c]) (Some c) cs"
proof -
  from r obtain junk where d: "drop (src st) (buf st) = (c # cs) @ NUL # junk"
    by (auto simp: rep_def)
  have a: "dst st = int (length acc)" "length acc \<le> src st" "take (length acc) (buf st) = acc"
    "NUL \<notin> set (c # cs)" "NUL \<notin> set acc" "nesting st = 0"
    using r by (auto simp: rep_def)
  have l: "src st + length (c # cs) < length (buf st)" using r by (rule rep_bound)
  let ?b = "(buf st)[length acc := c]"
  let ?st' = "st\<lparr>buf := ?b, src := src st + 1, dst := dst st + 1\<rparr>"
  have "rules st c = emit st c" using rules_classify [OF r] k by simp
  moreover have "emit st c = Inr (Continue ?st')" using a l by (simp add: emit_def poke_def)
  ultimately have "body st = Inr (Continue ?st')" using body_rules [OF r] by simp
  then have 1: "loop st = loop ?st'" using r loop_step by blast
  have la: "length acc < length (buf st)" using a l by simp
  have t: "take (Suc (length acc)) ?b = acc @ [c]"
    using la a(3) by (simp add: take_Suc_conv_app_nth)
  have "drop (src st + 1) (buf st) = drop 1 (c # cs) @ NUL # junk"
    using d by (rule drop_more) simp
  then have dr: "drop (Suc (src st)) ?b = cs @ NUL # junk" using a(2) by simp
  have "buf st ! (src st + 0) = (c # cs) ! 0" using r by (rule rep_nth) simp
  then have pc: "?b ! src st = c" using la by (cases "length acc = src st") auto
  have "rep ?st' (acc @ [c]) (Some c) cs"
    using a t dr pc by (simp add: rep_def)
  then show ?thesis using 1 by blast
qed

lemma step_Strip:
  assumes r: "rep st acc p rest" and k: "classify rest = Strip what"
  shows "\<exists>st'. loop st = loop st' \<and> rep st' acc (Some (last what)) (drop (length what) rest)"
proof -
  have s: "starts rest what" and w: "what \<noteq> []" using k classify_Strip by auto
  have lw: "length what \<le> length rest" using s by (rule starts_length)
  then obtain c cs where rest: "rest = c # cs" using w by (cases rest) auto
  from r obtain junk where d: "drop (src st) (buf st) = rest @ NUL # junk"
    by (auto simp: rep_def)
  have a: "dst st = int (length acc)" "length acc \<le> src st" "take (length acc) (buf st) = acc"
    "NUL \<notin> set rest" "NUL \<notin> set acc" "nesting st = 0"
    using r rest by (auto simp: rep_def)
  let ?st' = "st\<lparr>src := src st + length what\<rparr>"
  have "rules st c = STRIP st what" using rules_classify [of st acc p c cs] r k rest by simp
  then have "body st = Inr (Continue ?st')"
    using body_rules [of st acc p c cs] r rest by (simp add: STRIP_def)
  then have 1: "loop st = loop ?st'" using r loop_step by blast
  have dr: "drop (src st + length what) (buf st) = drop (length what) rest @ NUL # junk"
    using d lw by (rule drop_more)
  have n: "NUL \<notin> set (drop (length what) rest)" using a(4) by (auto dest: in_set_dropD)
  have i: "length what - 1 < length rest" "length what - 1 < length what" using w lw
    by (cases what; simp)+
  have "buf st ! (src st + (length what - 1)) = rest ! (length what - 1)"
    using r i(1) by (rule rep_nth)
  also have "\<dots> = what ! (length what - 1)" using s i(2) by (rule starts_nth)
  also have "\<dots> = last what" using w by (simp add: last_conv_nth)
  finally have pc: "buf st ! (src st + length what - 1) = last what" using w
    by (cases what) simp_all
  have "rep ?st' acc (Some (last what)) (drop (length what) rest)"
    using a dr n pc w by (auto simp: rep_def)
  then show ?thesis using 1 by blast
qed

lemma strcpy_app:
  "d + length w < length b \<Longrightarrow>
   strcpy b (int d) w = Inr (take d b @ w @ NUL # drop (d + length w + 1) b)"
proof (induction w arbitrary: b d)
  case Nil
  then show ?case by (simp add: poke_def upd_conv_take_nth_drop)
next
  case (Cons c cs)
  let ?b = "b[d := c]"
  have p: "poke b (int d) c = Inr ?b" using Cons.prems by (simp add: poke_def)
  have e: "int d + 1 = int (Suc d)" by simp
  have tk: "take (Suc d) ?b = take d b @ [c]" using Cons.prems
    by (simp add: take_Suc_conv_app_nth)
  have dr: "drop (Suc d + length cs + 1) ?b = drop (Suc d + length cs + 1) b" by simp
  have "Suc d + length cs < length ?b" using Cons.prems by simp
  then have ih: "strcpy ?b (int (Suc d)) cs
      = Inr (take (Suc d) ?b @ cs @ NUL # drop (Suc d + length cs + 1) ?b)"
    by (rule Cons.IH)
  have "strcpy b (int d) (c # cs) = strcpy ?b (int d + 1) cs" using p by simp
  also have "\<dots> = strcpy ?b (int (Suc d)) cs" by (simp only: e)
  also have "\<dots> = Inr (take (Suc d) ?b @ cs @ NUL # drop (Suc d + length cs + 1) ?b)"
    by (rule ih)
  also have "\<dots> = Inr (take d b @ (c # cs) @ NUL # drop (d + length (c # cs) + 1) b)"
    unfolding tk dr by simp
  finally show ?case .
qed

lemma patch_nth: "length x = m \<Longrightarrow> m \<le> i \<Longrightarrow> i < length b \<Longrightarrow> (x @ drop m b) ! i = b ! i"
  by (simp add: nth_append)

lemma patch_drop: "length x = m \<Longrightarrow> m \<le> i \<Longrightarrow> drop i (x @ drop m b) = drop i b"
  by simp

lemma step_Repl:
  assumes r: "rep st acc p rest" and k: "classify rest = Repl what w"
  shows "\<exists>st'. loop st = loop st' \<and>
           rep st' (acc @ w) (Some (last what)) (drop (length what) rest)"
proof -
  have s: "starts rest what" and ww: "length w + 2 \<le> length what" and nw: "NUL \<notin> set w"
    using k classify_Repl by auto
  have w: "what \<noteq> []" using ww by auto
  have lw: "length what \<le> length rest" using s by (rule starts_length)
  then obtain c cs where rest: "rest = c # cs" using w by (cases rest) auto
  from r obtain junk where d: "drop (src st) (buf st) = rest @ NUL # junk"
    by (auto simp: rep_def)
  have a: "dst st = int (length acc)" "length acc \<le> src st" "take (length acc) (buf st) = acc"
    "NUL \<notin> set rest" "NUL \<notin> set acc" "nesting st = 0"
    using r rest by (auto simp: rep_def)
  have l: "src st + length rest < length (buf st)" using r by (rule rep_bound)
  let ?m = "length acc + length w + 1"
  let ?x = "acc @ w @ [NUL]"
  define b where "b = ?x @ drop ?m (buf st)"
  let ?b = b
  let ?st' = "st\<lparr>buf := ?b, src := src st + length what, dst := dst st + int (length w)\<rparr>"
  have "length acc + length w < length (buf st)" using a(2) ww lw l by simp
  then have "strcpy (buf st) (int (length acc)) w = Inr ?b"
    using strcpy_app [of "length acc" w "buf st"] a(3) by (simp add: b_def)
  then have "REPLACE st what w = Inr (Continue ?st')" using a(1) by (simp add: REPLACE_def)
  moreover have "rules st c = REPLACE st what w"
    using rules_classify [of st acc p c cs] r k rest by simp
  ultimately have "body st = Inr (Continue ?st')"
    using body_rules [of st acc p c cs] r rest by simp
  then have 1: "loop st = loop ?st'" using r loop_step by blast
  have lx: "length ?x = ?m" by simp
  have m1: "?m \<le> src st + length what" using a(2) ww by simp
  have m2: "?m \<le> src st + length what - 1" using a(2) ww by simp
  have "drop (src st + length what) ?b = drop (src st + length what) (buf st)"
    unfolding b_def using lx m1 by (rule patch_drop)
  also have "\<dots> = drop (length what) rest @ NUL # junk" using d lw by (rule drop_more)
  finally have dr: "drop (src st + length what) ?b = drop (length what) rest @ NUL # junk" .
  have n: "NUL \<notin> set (drop (length what) rest)" using a(4) by (auto dest: in_set_dropD)
  have i: "length what - 1 < length rest" "length what - 1 < length what" using w lw
    by (cases what; simp)+
  have "src st + length what - 1 < length (buf st)" using l lw by simp
  with lx m2 have "?b ! (src st + length what - 1) = buf st ! (src st + length what - 1)"
    unfolding b_def by (rule patch_nth)
  also have "\<dots> = buf st ! (src st + (length what - 1))" using w by (cases what) simp_all
  also have "\<dots> = rest ! (length what - 1)" using r i(1) by (rule rep_nth)
  also have "\<dots> = what ! (length what - 1)" using s i(2) by (rule starts_nth)
  also have "\<dots> = last what" using w by (simp add: last_conv_nth)
  finally have pc: "?b ! (src st + length what - 1) = last what" .
  have t: "take (length acc + length w) ?b = acc @ w" by (simp add: b_def)
  have "rep ?st' (acc @ w) (Some (last what)) (drop (length what) rest)"
    unfolding rep_def using a nw dr n pc w t ww by simp
  then show ?thesis using 1 by blast
qed

lemma rep_prev:
  assumes "rep st acc p rest" "rest \<noteq> []"
  shows "(src st \<noteq> 0 \<and> buf st ! (src st - 1) = x) = (p = Some x)"
    and "(src st \<noteq> 0 \<and> buf st ! (src st - 1) \<noteq> x) = (p \<noteq> None \<and> p \<noteq> Some x)"
  using assms by (auto simp: rep_def)

lemma step_Node:
  assumes r: "rep st acc p rest" and k: "classify rest = StripNode" and l8: "8 \<le> length rest"
  shows "\<exists>st'. loop st = loop st' \<and>
           rep st' (acc @ (if p \<noteq> None \<and> p \<noteq> Some (CHR '' '') then '' '' else []))
             (Some (rest ! 7)) (drop 8 rest)"
proof -
  obtain c cs where rest: "rest = c # cs" using l8 by (cases rest) auto
  from r obtain junk where d: "drop (src st) (buf st) = rest @ NUL # junk"
    by (auto simp: rep_def)
  have a: "dst st = int (length acc)" "length acc \<le> src st" "take (length acc) (buf st) = acc"
    "NUL \<notin> set rest" "NUL \<notin> set acc" "nesting st = 0"
    using r rest by (auto simp: rep_def)
  have l: "src st + length rest < length (buf st)" using r by (rule rep_bound)
  have ru: "body st = strip_Node st"
    using rules_classify [of st acc p c cs] body_rules [of st acc p c cs] r k rest by simp
  have dr: "drop (src st + 8) (buf st) = drop 8 rest @ NUL # junk" using d l8 by (rule drop_more)
  have n: "NUL \<notin> set (drop 8 rest)" using a(4) by (auto dest: in_set_dropD)
  have pc: "buf st ! (src st + 7) = rest ! 7" using r by (rule rep_nth) (use l8 in simp)
  have cond: "(src st \<noteq> 0 \<and> buf st ! (src st - 1) \<noteq> CHR '' '')
              = (p \<noteq> None \<and> p \<noteq> Some (CHR '' ''))"
    using r by (rule rep_prev) (simp add: rest)
  show ?thesis
  proof (cases "p \<noteq> None \<and> p \<noteq> Some (CHR '' '')")
    case True
    define b where "b = (buf st)[length acc := CHR '' '']"
    let ?st' = "st\<lparr>buf := b, src := src st + 8, dst := dst st + 1\<rparr>"
    have la: "length acc < length (buf st)" using a l by simp
    have c1: "src st \<noteq> 0 \<and> buf st ! (src st - 1) \<noteq> CHR '' ''"
      unfolding cond by (rule True)
    have "strip_Node st = (case poke (buf st) (dst st) (CHR '' '') of
           Inl e \<Rightarrow> Inl e
         | Inr b \<Rightarrow> Inr (Continue (st\<lparr>buf := b, src := src st + 8, dst := dst st + 1\<rparr>)))"
      unfolding strip_Node_def by (rule if_P [OF c1])
    then have "strip_Node st = Inr (Continue ?st')"
      using a la by (simp add: poke_def b_def)
    then have 1: "loop st = loop ?st'" using ru r loop_step by metis
    have t: "take (Suc (length acc)) b = acc @ '' ''"
      using la a(3) by (simp add: take_Suc_conv_app_nth b_def)
    have dr': "drop (src st + 8) b = drop 8 rest @ NUL # junk" using dr a(2) by (simp add: b_def)
    have pc': "b ! (src st + 7) = rest ! 7" using pc a(2) by (simp add: b_def)
    have "rep ?st' (acc @ '' '') (Some (rest ! 7)) (drop 8 rest)"
      unfolding rep_def using a t dr' pc' n by (simp add: NUL_def add.commute)
    then show ?thesis using 1 True by auto
  next
    case False
    let ?st' = "st\<lparr>src := src st + 8\<rparr>"
    have c0: "\<not> (src st \<noteq> 0 \<and> buf st ! (src st - 1) \<noteq> CHR '' '')"
      unfolding cond by (rule False)
    have "strip_Node st = Inr (Continue ?st')"
      unfolding strip_Node_def by (rule if_not_P [OF c0])
    then have 1: "loop st = loop ?st'" using ru r loop_step by metis
    have "rep ?st' acc (Some (rest ! 7)) (drop 8 rest)"
      unfolding rep_def using a dr pc n by (simp add: add.commute)
    then show ?thesis using 1 False by auto
  qed
qed

lemma skip_arg_set: "set (skip_arg k xs) \<subseteq> set xs"
  by (induction k xs rule: skip_arg.induct) auto

lemma discard_skip:
  "drop (src st) (buf st) = r @ NUL # junk \<Longrightarrow> NUL \<notin> set r \<Longrightarrow> nesting st = int k \<Longrightarrow>
   0 < k \<Longrightarrow>
   \<exists>st'. loop st = loop st' \<and> buf st' = buf st \<and> dst st' = dst st \<and> src st \<le> src st' \<and>
         drop (src st') (buf st) = skip_arg k r @ NUL # junk \<and>
         (skip_arg k r \<noteq> [] \<longrightarrow>
            nesting st' = 0 \<and> src st' \<noteq> 0 \<and> buf st ! (src st' - 1) = CHR ''>'')"
proof (induction r arbitrary: st k)
  case Nil
  then show ?case by auto
next
  case (Cons c cs)
  have d: "drop (src st) (buf st) = (c # cs) @ NUL # junk" using Cons.prems(1) by simp
  have "length (drop (src st) (buf st)) = length (c # cs) + 1 + length junk"
    unfolding d by simp
  then have l: "src st < length (buf st)" by simp
  have c: "buf st ! src st = c" using Cons.prems(1) by (simp add: nth_via_drop)
  have cn: "c \<noteq> NUL" and n: "NUL \<notin> set cs" using Cons.prems(2) by auto
  define k' where "k' = (if c = CHR ''<'' then Suc k else if c = CHR ''>'' then k - 1 else k)"
  define st1 where "st1 = st\<lparr>src := src st + 1, nesting := int k'\<rparr>"
  have "body st = discard st c" using c cn Cons.prems(3,4) by (simp add: body_def)
  also have "\<dots> = Inr (Continue st1)"
    using Cons.prems(3,4) by (auto simp: discard_def st1_def k'_def)
  finally have "loop st = loop st1" using l by (subst loop.simps) simp
  have "drop (src st + 1) (buf st) = drop 1 (c # cs) @ NUL # junk"
    using d by (rule drop_more) simp
  then have d1: "drop (src st1) (buf st1) = cs @ NUL # junk" by (simp add: st1_def)
  show ?case
  proof (cases "c = CHR ''>'' \<and> k \<le> 1")
    case True
    then have "skip_arg k (c # cs) = cs" "nesting st1 = 0" by (auto simp: st1_def k'_def)
    moreover have "buf st ! (src st1 - 1) = CHR ''>''" using c True by (simp add: st1_def)
    ultimately show ?thesis using \<open>loop st = loop st1\<close> d1 by (auto simp: st1_def)
  next
    case False
    then have s: "skip_arg k (c # cs) = skip_arg k' cs" and kp: "0 < k'"
      using Cons.prems(4) by (auto simp: k'_def)
    have "nesting st1 = int k'" by (simp add: st1_def)
    with d1 n obtain st' where "loop st1 = loop st'" "buf st' = buf st1" "dst st' = dst st1"
      "src st1 \<le> src st'" "drop (src st') (buf st1) = skip_arg k' cs @ NUL # junk"
      "skip_arg k' cs \<noteq> [] \<longrightarrow>
         nesting st' = 0 \<and> src st' \<noteq> 0 \<and> buf st1 ! (src st' - 1) = CHR ''>''"
      using Cons.IH [of st1 k'] kp by blast
    then show ?thesis using \<open>loop st = loop st1\<close> s by (auto simp: st1_def)
  qed
qed

lemma step_Arg:
  assumes r: "rep st acc p rest" and k: "classify rest = Arg n" and ln: "n + 1 \<le> length rest"
    and e: "p = Some (CHR '','') \<longrightarrow> acc \<noteq> []"
  shows "\<exists>st'. loop st = loop st' \<and>
           rep st' (if p = Some (CHR '','') then butlast acc else acc) (Some (CHR ''>''))
             (skip_arg 1 (drop (n + 1) rest))"
proof -
  obtain c cs where rest: "rest = c # cs" using ln by (cases rest) auto
  from r obtain junk where d: "drop (src st) (buf st) = rest @ NUL # junk"
    by (auto simp: rep_def)
  have a: "dst st = int (length acc)" "length acc \<le> src st" "take (length acc) (buf st) = acc"
    "NUL \<notin> set rest" "NUL \<notin> set acc" "nesting st = 0"
    using r rest by (auto simp: rep_def)
  have ru: "body st = strip_template_arg st n"
    using rules_classify [of st acc p c cs] body_rules [of st acc p c cs] r k rest by simp
  have cond: "(src st \<noteq> 0 \<and> buf st ! (src st - 1) = CHR '','') = (p = Some (CHR '',''))"
    using r by (rule rep_prev) (simp add: rest)
  let ?a = "if p = Some (CHR '','') then butlast acc else acc"
  define st1 where "st1 = st\<lparr>src := src st + n + 1, dst := int (length ?a), nesting := 1\<rparr>"
  have "int (length acc) - 1 = int (length (butlast acc))" if "acc \<noteq> []"
    using that by (cases acc rule: rev_cases) auto
  then have "strip_template_arg st n = Inr (Continue st1)"
    using cond a e by (auto simp: strip_template_arg_def Let_def st1_def)
  then have 1: "loop st = loop st1" using ru r loop_step by metis
  let ?r = "drop (n + 1) rest"
  have "drop (src st + (n + 1)) (buf st) = ?r @ NUL # junk" using d ln by (rule drop_more)
  then have d1: "drop (src st1) (buf st1) = ?r @ NUL # junk" by (simp add: st1_def add.assoc)
  have n1: "NUL \<notin> set ?r" using a(4) by (auto dest: in_set_dropD)
  have nn: "nesting st1 = int 1" by (simp add: st1_def)
  have "\<exists>st'. loop st1 = loop st' \<and> buf st' = buf st1 \<and> dst st' = dst st1 \<and>
          src st1 \<le> src st' \<and> drop (src st') (buf st1) = skip_arg 1 ?r @ NUL # junk \<and>
          (skip_arg 1 ?r \<noteq> [] \<longrightarrow>
             nesting st' = 0 \<and> src st' \<noteq> 0 \<and> buf st1 ! (src st' - 1) = CHR ''>'')"
    using d1 n1 nn by (rule discard_skip) simp
  then obtain st' where s: "loop st1 = loop st'" "buf st' = buf st1" "dst st' = dst st1"
      "src st1 \<le> src st'" "drop (src st') (buf st1) = skip_arg 1 ?r @ NUL # junk"
      "skip_arg 1 ?r \<noteq> [] \<longrightarrow>
         nesting st' = 0 \<and> src st' \<noteq> 0 \<and> buf st1 ! (src st' - 1) = CHR ''>''"
    by blast
  have n2: "NUL \<notin> set (skip_arg 1 ?r)" using n1 skip_arg_set by blast
  have ta: "take (length ?a) (buf st) = ?a"
  proof (cases "p = Some (CHR '','')")
    case True
    have "take (length acc - 1) (take (length acc) (buf st)) = butlast acc"
      unfolding a(3) by (simp add: butlast_conv_take)
    then show ?thesis using True by (simp add: min_def)
  next
    case False
    then show ?thesis using a(3) by simp
  qed
  have la: "length ?a \<le> src st'" using a(2) s(4) by (auto simp: st1_def)
  have na: "NUL \<notin> set ?a" using a(5) by (auto dest: in_set_butlastD)
  have "rep st' ?a (Some (CHR ''>'')) (skip_arg 1 ?r)"
    unfolding rep_def using s ta la na n2 by (simp add: st1_def)
  then show ?thesis using 1 s(1) by auto
qed

subsection \<open>The whole pass\<close>

text \<open>
  On a tame name the loop ends, and the string it leaves contains none of the six
  strings.
\<close>

lemma tame_fire:
  "tame acc p rest \<Longrightarrow> rest \<noteq> [] \<Longrightarrow> classify rest \<noteq> Copy \<Longrightarrow>
   \<exists>a w p' rest'. fire (classify rest) acc p rest = Some (a, w, p', rest') \<and>
      \<not> joins a w \<and> \<not> joins (a @ w) rest' \<and> tame (a @ w) p' rest'"
  by (subst (asm) tame.simps) (auto split: option.splits)

lemma tame_copy:
  "tame acc p (c # cs) \<Longrightarrow> classify (c # cs) = Copy \<Longrightarrow> tame (acc @ [c]) (Some c) cs"
  by (subst (asm) tame.simps) simp

lemma fire_facts:
  assumes "fire (classify rest) acc p rest = Some (a, w, p', rest')" "\<not> has_trigger acc"
  shows "\<not> has_trigger a \<and> \<not> has_trigger w"
proof (cases "classify rest")
  case Copy
  then show ?thesis using assms by simp
next
  case StripNode
  have "\<not> has_trigger '' ''" by (simp add: triggered_def starts_def)
  then show ?thesis using assms StripNode by (auto split: if_splits)
next
  case (Repl what w0)
  then have "\<not> has_trigger w0" using classify_Repl by blast
  then show ?thesis using assms Repl by auto
next
  case (Strip what)
  then show ?thesis using assms by auto
next
  case (Arg n)
  then show ?thesis using assms has_trigger_butlast [of acc] by (auto split: if_splits)
qed

lemma step_fire:
  assumes r: "rep st acc p rest"
    and f: "fire (classify rest) acc p rest = Some (a, w, p', rest')"
  shows "\<exists>st'. loop st = loop st' \<and> rep st' (a @ w) p' rest'"
proof (cases "classify rest")
  case Copy
  then show ?thesis using f by simp
next
  case StripNode
  then have "8 \<le> length rest" using f by (auto split: if_splits)
  with r StripNode have "\<exists>st'. loop st = loop st' \<and>
           rep st' (acc @ (if p \<noteq> None \<and> p \<noteq> Some (CHR '' '') then '' '' else []))
             (Some (rest ! 7)) (drop 8 rest)"
    by (rule step_Node)
  moreover have "a = acc" "w = (if p \<noteq> None \<and> p \<noteq> Some (CHR '' '') then '' '' else [])"
    "p' = Some (rest ! 7)" "rest' = drop 8 rest"
    using f StripNode by (auto split: if_splits)
  ultimately show ?thesis by simp
next
  case (Repl what w0)
  with r have "\<exists>st'. loop st = loop st' \<and>
           rep st' (acc @ w0) (Some (last what)) (drop (length what) rest)"
    by (rule step_Repl)
  then show ?thesis using f Repl by auto
next
  case (Strip what)
  with r have "\<exists>st'. loop st = loop st' \<and>
           rep st' acc (Some (last what)) (drop (length what) rest)"
    by (rule step_Strip)
  then show ?thesis using f Strip by auto
next
  case (Arg n)
  then have ln: "n + 1 \<le> length rest" and e: "p = Some (CHR '','') \<longrightarrow> acc \<noteq> []"
    using f by (auto split: if_splits)
  with r Arg have "\<exists>st'. loop st = loop st' \<and>
           rep st' (if p = Some (CHR '','') then butlast acc else acc) (Some (CHR ''>''))
             (skip_arg 1 (drop (n + 1) rest))"
    by (rule step_Arg)
  moreover have "a = (if p = Some (CHR '','') then butlast acc else acc)" "w = []"
    "p' = Some (CHR ''>'')" "rest' = skip_arg 1 (drop (n + 1) rest)"
    using f Arg by (auto split: if_splits)
  ultimately show ?thesis by simp
qed

lemma tame_loop:
  "tame acc p rest \<Longrightarrow> rep st acc p rest \<Longrightarrow> \<not> has_trigger acc \<Longrightarrow> \<not> joins acc rest \<Longrightarrow>
   \<exists>b. loop st = Inr b \<and> \<not> has_trigger (c_str b)"
proof (induction "length rest" arbitrary: acc p rest st rule: less_induct)
  case less
  show ?case
  proof (cases "rest = []")
    case True
    then obtain b where "loop st = Inr b" "c_str b = acc" using loop_end less.prems(2) by blast
    then show ?thesis using less.prems(3) by auto
  next
    case False
    then obtain c cs where rest: "rest = c # cs" by (cases rest) auto
    show ?thesis
    proof (cases "classify rest = Copy")
      case True
      have t: "tame (acc @ [c]) (Some c) cs" using less.prems(1) True rest tame_copy by blast
      obtain st' where s: "loop st = loop st'" "rep st' (acc @ [c]) (Some c) cs"
        using step_copy less.prems(2) True rest by blast
      have "\<not> triggered (c # cs)" using classify_Copy True rest by blast
      then have k: "\<not> has_trigger (acc @ [c])" "\<not> joins (acc @ [c]) cs"
        using copy_keeps less.prems(3,4) rest by blast+
      have "length cs < length rest" using rest by simp
      then show ?thesis using less.hyps [OF _ t s(2) k] s(1) by simp
    next
      case c: False
      obtain a w p' rest' where f: "fire (classify rest) acc p rest = Some (a, w, p', rest')"
        and j: "\<not> joins a w" "\<not> joins (a @ w) rest'" and t: "tame (a @ w) p' rest'"
        using tame_fire [OF less.prems(1) False c] by blast
      obtain st' where s: "loop st = loop st'" "rep st' (a @ w) p' rest'"
        using step_fire [OF less.prems(2) f] by blast
      have "\<not> has_trigger a \<and> \<not> has_trigger w" using f less.prems(3) by (rule fire_facts)
      then have k: "\<not> has_trigger (a @ w)" using j(1) has_trigger_append by blast
      have "length rest' < length rest" using f False fire_shorter by blast
      then show ?thesis using less.hyps [OF _ t s(2) k j(2)] s(1) by simp
    qed
  qed
qed

lemma joins_Nil: "\<not> joins [] b"
  by (simp add: joins_iff)

lemma tame_result:
  assumes "tame [] None (c_str (m @ [NUL]))"
  shows "\<exists>b. stl_simplify_name m = Inr b \<and> \<not> has_trigger (c_str b)"
proof -
  let ?st = "\<lparr>buf = m @ [NUL], src = 0, dst = 0, nesting = 0\<rparr>"
  have "NUL \<in> set (m @ [NUL])" by simp
  then obtain r where "m @ [NUL] = c_str (m @ [NUL]) @ NUL # r" using c_str_split by blast
  then have "rep ?st [] None (c_str (m @ [NUL]))"
    using c_str_no_NUL [of "m @ [NUL]"] by (auto simp: rep_def)
  then show ?thesis
    using tame_loop [OF assms, of ?st] joins_Nil by (auto simp: stl_simplify_name_def)
qed

subsection \<open>Idempotence\<close>

text \<open>
  C8, as the claim states it, fails: the simplifier makes one pass, and what it
  removes can bring the two halves of a pattern together. \<^verbatim>\<open>ststd::d::x\<close> is
  rewritten to \<^verbatim>\<open>std::x\<close>, and \<^verbatim>\<open>std::x\<close> to \<^verbatim>\<open>x\<close>.
\<close>

theorem simplified_not_idempotent_counterexample:
  "simplified ''ststd::d::x'' = Inr ''std::x'' \<and> simplified ''std::x'' = Inr ''x'' \<and>
   simplified ''std::x'' \<noteq> Inr ''std::x''"
  by code_simp

text \<open>
  C8, amended: the simplifier is idempotent on every name that is tame. These are
  the names on which, read from left to right as the loop reads them, no rule moves
  the read pointer past the terminator or the write pointer in front of the array,
  and no rule brings one of the six strings that start a rule (\<^verbatim>\<open>::_Node\<close>,
  \<^verbatim>\<open>unsigned short\<close>, \<^verbatim>\<open>unsigned int\<close>, \<^verbatim>\<open>unsigned __int64\<close>, \<^verbatim>\<open>,0> \<close> and
  \<^verbatim>\<open>std::\<close>) together across the place where it removed or wrote text. On such a
  name the call returns; a second call on the same array leaves the whole array as
  it is, and a call on a copy of the string it left gives that string again.
\<close>

theorem simplified_idempotent_on_tame:
  assumes "tame [] None (c_str (m @ [NUL]))"
  shows "\<exists>b. stl_simplify_name m = Inr b \<and> simplified m = Inr (c_str b) \<and>
             stl_simplify_name (butlast b) = Inr b \<and> simplified (c_str b) = Inr (c_str b)"
proof -
  from assms obtain b where b: "stl_simplify_name m = Inr b" "\<not> has_trigger (c_str b)"
    using tame_result by blast
  have "simplified m = Inr (c_str b)" using b(1) by (simp add: simplified_def)
  then show ?thesis using b trigger_free_fixed_point by blast
qed

theorem simplified_idempotent_on_tame_witness:
  "tame [] None (c_str (tree_node_name @ [NUL]))
   \<and> simplified tree_node_name = Inr ''map<<int,uint> *''
   \<and> simplified ''map<<int,uint> *'' = Inr ''map<<int,uint> *''"
proof -
  have h: "tame [] None (c_str (tree_node_name @ [NUL]))"
    by code_simp
  have s: "simplified tree_node_name = Inr ''map<<int,uint> *''"
    by code_simp
  from simplified_idempotent_on_tame [OF h] obtain b
    where "simplified tree_node_name = Inr (c_str b)"
      and "simplified (c_str b) = Inr (c_str b)" by blast
  then have "simplified ''map<<int,uint> *'' = Inr ''map<<int,uint> *''" using s by simp
  then show ?thesis using h s by simp
qed

end
